theory Spec2Isabelle
  imports Main
begin

section \<open>Data model (types.ts)\<close>

text \<open>
  JavaScript strings are modelled as \<open>string\<close>; a \<open>char\<close> stands for one code unit
  below 256. The timestamp \<open>lastModified\<close> (an integer number of milliseconds),
  \<open>resizeWidth\<close> and image widths are modelled as \<open>int\<close> or \<open>nat\<close>.
  A thrown exception is the \<open>Inl\<close> branch of a sum.

  \<open>startNumber\<close> is a \<open>number\<close>, that is a double-precision float, and the Planner
  computes with it. It is set by \<open>parseInt(..) || 0\<close>, which gives a double with an
  integer value, or an infinity for a digit string beyond the largest double.
  \<open>Finite n\<close> is the double whose value is the integer \<open>n\<close>, for the integers that are
  doubles: all those up to \<open>2^53\<close> in magnitude and, beyond, those of at most 53
  significant binary digits.
\<close>

datatype number = Finite int | PosInfinity | NegInfinity | NaN

datatype FileStatus = PENDING | SUCCESS | ERROR | SKIPPED

datatype js_error = JsError (err_name: string) (err_message: string)

text \<open>
  A \<open>File\<close> (or \<open>Blob\<close>) object: its bytes, its MIME type, its timestamp, and what the
  browser's image decoder makes of the bytes (\<open>None\<close> when the image fails to load,
  otherwise width and height).
\<close>

record FileData =
  bytes :: "nat list"
  mime_type :: string
  data_lastModified :: int
  image_dims :: "(nat \<times> nat) option"

text \<open>A \<open>FileSystemFileHandle\<close>: the name it refers to and whether the experimental
  \<open>move\<close> method is present on it.\<close>

record FileSystemFileHandle =
  handle_name :: string
  has_move :: bool

record ImageFile =
  file_id :: string
  originalName :: string
  extension :: string
  path :: string
  file_size :: nat
  lastModified :: int
  previewUrl :: "string option"
  fileObject :: FileData
  handle :: "FileSystemFileHandle option"

record RenameConfig =
  pattern :: string
  startNumber :: number
  recursive :: bool
  dryRun :: bool
  overwrite :: bool
  prefix :: string
  suffix :: string
  enableResize :: bool
  resizeWidth :: int
  resizeQuality :: int
  keepOriginals :: bool

record ProcessedFile = ImageFile +
  newName :: string
  status :: FileStatus
  errorMessage :: "string option"

section \<open>JavaScript built-ins used by the Planner\<close>

subsection \<open>Numbers: the increment operator, Number.prototype.toString, padStart\<close>

definition digit_char :: "nat \<Rightarrow> char" where
  "digit_char d = ''0123456789'' ! d"

fun nat_digits :: "nat \<Rightarrow> string" where
  "nat_digits n = (if n < 10 then [digit_char n]
                   else nat_digits (n div 10) @ [digit_char (n mod 10)])"

declare nat_digits.simps [simp del]

text \<open>The number of binary digits of a natural number.\<close>

fun bit_length :: "nat \<Rightarrow> nat" where
  "bit_length n = (if n = 0 then 0 else Suc (bit_length (n div 2)))"

declare bit_length.simps [simp del]

text \<open>
  The double nearest to the natural number \<open>v\<close>. A double has a significand of 53 binary
  digits, so every natural number below \<open>2^53 = 9007199254740992\<close> is a double; a larger
  one is rounded to a multiple of \<open>u\<close>, the weight of its 53rd binary digit, to the nearer
  of the two neighbours and, half-way between them, to the one with the even significand.
  (Past the largest double the language rounds to an infinity; the result here is then
  a number larger than every double. The Planner only adds one to a double, which never
  gets there, and compares a rounded number with a double.)
\<close>

definition roundToDouble :: "nat \<Rightarrow> nat" where
  "roundToDouble v =
     (if v < 9007199254740992 then v
      else
        (let u = 2 ^ (bit_length v - 53); q = v div u; r = v mod u
         in if 2 * r < u \<or> (2 * r = u \<and> even q) then q * u else (q + 1) * u))"

text \<open>\<open>counter++\<close>: the double nearest to the exact sum (rounding is symmetric in the
  sign); an infinity and NaN stay what they are.\<close>

fun increment :: "number \<Rightarrow> number" where
  "increment (Finite n) =
     (if 0 \<le> n + 1 then Finite (int (roundToDouble (nat (n + 1))))
      else Finite (- int (roundToDouble (nat (- (n + 1))))))"
| "increment PosInfinity = PosInfinity"
| "increment NegInfinity = NegInfinity"
| "increment NaN = NaN"

text \<open>
  \<open>Number.prototype.toString\<close> for a positive double \<open>x\<close> with an integer value. The
  language takes the least number \<open>k\<close> of decimal digits for which some integer \<open>s\<close> of
  \<open>k\<close> digits and some exponent \<open>e\<close> have \<open>x\<close> as the double nearest to \<open>s * 10^e\<close>; of
  two such \<open>s\<close> the one nearer to \<open>x\<close>, and the even one when they are equally near.
  \<open>digitCandidate x e\<close> is that \<open>s\<close> for the exponent \<open>e\<close>, if there is one: only the
  two multiples of \<open>10^e\<close> around \<open>x\<close> can qualify.
\<close>

definition digitCandidate :: "nat \<Rightarrow> nat \<Rightarrow> nat option" where
  "digitCandidate x e =
     (let lo = x div 10 ^ e; hi = lo + 1; r = x mod 10 ^ e;
          okLo = (roundToDouble (lo * 10 ^ e) = x);
          okHi = (roundToDouble (hi * 10 ^ e) = x)
      in if okLo \<and> okHi then
           (if 2 * r < 10 ^ e then Some lo
            else if 10 ^ e < 2 * r then Some hi
            else if even lo then Some lo else Some hi)
         else if okLo then Some lo
         else if okHi then Some hi
         else None)"

text \<open>Fewer digits mean a larger exponent, so the search runs from the largest exponent
  down; with the exponent 0 the digits are those of \<open>x\<close> itself.\<close>

fun shortestDigits :: "nat \<Rightarrow> nat \<Rightarrow> nat \<times> nat" where
  "shortestDigits x 0 = (x, 0)"
| "shortestDigits x (Suc e) =
     (case digitCandidate x (Suc e) of
        Some s \<Rightarrow> (s, Suc e)
      | None \<Rightarrow> shortestDigits x e)"

text \<open>
  With \<open>len\<close> the number of decimal digits of \<open>x\<close>: either the power of ten just above
  \<open>x\<close> rounds to \<open>x\<close>, and the digits are the single digit 1, or the digits are found
  among the numbers of at most \<open>len\<close> digits. With \<open>n = k + e\<close> the position of the
  decimal point, the result is the digits followed by \<open>e\<close> zeros when \<open>n \<le> 21\<close>, and
  exponent notation otherwise.
\<close>

definition numberToString :: "nat \<Rightarrow> string" where
  "numberToString x =
     (let len = length (nat_digits x);
          (s, e) = (if roundToDouble (10 ^ len) = x then (1, len)
                    else shortestDigits x (len - 1));
          digits = nat_digits s;
          k = length digits;
          n = k + e
      in if n \<le> 21 then digits @ replicate e (CHR ''0'')
         else if k = 1 then digits @ ''e+'' @ nat_digits (n - 1)
         else hd digits # ''.'' @ tl digits @ ''e+'' @ nat_digits (n - 1))"

text \<open>\<open>index.toString()\<close>.\<close>

fun toString :: "number \<Rightarrow> string" where
  "toString (Finite i) =
     (if i = 0 then ''0''
      else if i < 0 then CHR ''-'' # numberToString (nat (- i))
      else numberToString (nat i))"
| "toString PosInfinity = ''Infinity''"
| "toString NegInfinity = ''-Infinity''"
| "toString NaN = ''NaN''"

text \<open>\<open>s.padStart(n, c)\<close> with a one-character filler.\<close>

definition padStart :: "nat \<Rightarrow> char \<Rightarrow> string \<Rightarrow> string" where
  "padStart n c s = replicate (n - length s) c @ s"

subsection \<open>String.prototype.toLowerCase\<close>

definition lower_char :: "char \<Rightarrow> char" where
  "lower_char c =
     (let n = (of_char c :: nat)
      in if (65 \<le> n \<and> n \<le> 90) \<or> (192 \<le> n \<and> n \<le> 222 \<and> n \<noteq> 215)
         then char_of (n + 32) else c)"

definition toLowerCase :: "string \<Rightarrow> string" where
  "toLowerCase s = map lower_char s"

subsection \<open>new Date(t).toISOString()\<close>

definition msPerDay :: int where
  "msPerDay = 86400000"

text \<open>TimeClip: a time value beyond 8.64e15 ms from the epoch is not a valid date.\<close>

definition maxTime :: int where
  "maxTime = 8640000000000000"

text \<open>Day number (days since 1970-01-01) to the proleptic Gregorian (year, month, day).\<close>

definition civil_from_days :: "int \<Rightarrow> int \<times> int \<times> int" where
  "civil_from_days z0 =
     (let z = z0 + 719468;
          era = z div 146097;
          doe = z mod 146097;
          yoe = (doe - doe div 1460 + doe div 36524 - doe div 146096) div 365;
          y = yoe + era * 400;
          doy = doe - (365 * yoe + yoe div 4 - yoe div 100);
          mp = (5 * doy + 2) div 153;
          d = doy - (153 * mp + 2) div 5 + 1;
          m = (if mp < 10 then mp + 3 else mp - 9)
      in (if m \<le> 2 then y + 1 else y, m, d))"

definition pad_nat :: "nat \<Rightarrow> int \<Rightarrow> string" where
  "pad_nat w i = padStart w (CHR ''0'') (nat_digits (nat i))"

text \<open>Years 0 to 9999 are written with four digits, all others with a sign and six.\<close>

definition year_string :: "int \<Rightarrow> string" where
  "year_string y =
     (if 0 \<le> y \<and> y \<le> 9999 then pad_nat 4 y
      else if y < 0 then CHR ''-'' # pad_nat 6 (- y)
      else CHR ''+'' # pad_nat 6 y)"

definition toISOString :: "int \<Rightarrow> js_error + string" where
  "toISOString t =
     (if t < - maxTime \<or> maxTime < t
      then Inl (JsError ''RangeError'' ''Invalid time value'')
      else
        (let (y, m, d) = civil_from_days (t div msPerDay);
             ms = t mod msPerDay
         in Inr (year_string y @ ''-'' @ pad_nat 2 m @ ''-'' @ pad_nat 2 d @ ''T''
                 @ pad_nat 2 (ms div 3600000) @ '':''
                 @ pad_nat 2 (ms mod 3600000 div 60000) @ '':''
                 @ pad_nat 2 (ms mod 60000 div 1000) @ ''.''
                 @ pad_nat 3 (ms mod 1000) @ ''Z'')))"

text \<open>\<open>s.split('T')[0]\<close>: the text before the first \<open>T\<close>.\<close>

definition split_T_0 :: "string \<Rightarrow> string" where
  "split_T_0 s = takeWhile (\<lambda>c. c \<noteq> CHR ''T'') s"

subsection \<open>String.prototype.replace with a global regular expression\<close>

definition startsWith :: "string \<Rightarrow> string \<Rightarrow> bool" where
  "startsWith s p = (take (length p) s = p)"

text \<open>
  GetSubstitution for a regular expression without capture groups: in a replacement
  \<^emph>\<open>string\<close>, \<open>$$\<close> stands for a dollar sign, \<open>$&\<close> for the matched text, \<open>$`\<close> for
  the text before the match and \<open>$'\<close> for the text after it; any other \<open>$\<close> is literal.
\<close>

fun getSubstitution :: "string \<Rightarrow> string \<Rightarrow> string \<Rightarrow> string \<Rightarrow> string" where
  "getSubstitution matched preceding following [] = []"
| "getSubstitution matched preceding following [c] = [c]"
| "getSubstitution matched preceding following (c # d # t) =
     (if c = CHR ''$'' then
        (if d = CHR ''$'' then CHR ''$'' # getSubstitution matched preceding following t
         else if d = CHR ''&'' then matched @ getSubstitution matched preceding following t
         else if d = CHR 0x60 then preceding @ getSubstitution matched preceding following t
         else if d = CHR 0x27 then following @ getSubstitution matched preceding following t
         else CHR ''$'' # getSubstitution matched preceding following (d # t))
      else c # getSubstitution matched preceding following (d # t))"

text \<open>
  \<open>s.replace(/tok/g, tmpl)\<close> for a regular expression that is the literal text \<open>tok\<close>:
  every match, found from left to right without overlap, is replaced by the expansion
  of the replacement string. \<open>preceding\<close> is the text already scanned.
\<close>

fun replaceLiteral :: "string \<Rightarrow> string \<Rightarrow> string \<Rightarrow> string \<Rightarrow> string" where
  "replaceLiteral tok tmpl preceding [] = []"
| "replaceLiteral tok tmpl preceding (c # cs) =
     (if tok \<noteq> [] \<and> startsWith (c # cs) tok
      then getSubstitution tok preceding (drop (length tok) (c # cs)) tmpl
           @ replaceLiteral tok tmpl (preceding @ tok) (drop (length tok - 1) cs)
      else c # replaceLiteral tok tmpl (preceding @ [c]) cs)"

definition isDigit :: "char \<Rightarrow> bool" where
  "isDigit c = (c \<in> set ''0123456789'')"

text \<open>
  One match attempt of \<open>/{num(?::(\d+))?}/\<close> at the start of the text: the captured
  digits (\<open>None\<close> when the optional group did not take part) and the text after the match.
\<close>

definition matchNum :: "string \<Rightarrow> (string option \<times> string) option" where
  "matchNum s =
     (if startsWith s ''{num'' then
        (let r = drop 4 s in
         if startsWith r ''}'' then Some (None, drop 1 r)
         else if startsWith r '':'' then
           (let ds = takeWhile isDigit (drop 1 r); r' = dropWhile isDigit (drop 1 r)
            in if ds \<noteq> [] \<and> startsWith r' ''}'' then Some (Some ds, drop 1 r') else None)
         else None)
      else None)"

text \<open>The replacement callback of \<open>applyPattern\<close>.\<close>

definition numReplacement :: "number \<Rightarrow> string option \<Rightarrow> string" where
  "numReplacement index paddingStr =
     (let numStr = toString index
      in case paddingStr of
           None \<Rightarrow> numStr
         | Some p \<Rightarrow> if p \<noteq> [] then padStart (length p) (CHR ''0'') numStr else numStr)"

function replaceNum :: "number \<Rightarrow> string \<Rightarrow> string" where
  "replaceNum index [] = []"
| "replaceNum index (c # cs) =
     (case matchNum (c # cs) of
        Some (paddingStr, rest) \<Rightarrow> numReplacement index paddingStr @ replaceNum index rest
      | None \<Rightarrow> c # replaceNum index cs)"
  by pat_completeness auto

lemma matchNum_shorter: "matchNum s = Some (p, r) \<Longrightarrow> length r < length s"
proof -
  assume m: "matchNum s = Some (p, r)"
  then have "startsWith s ''{num''"
    by (simp add: matchNum_def split: if_splits)
  then have "length (take (length ''{num'') s) = length ''{num''"
    unfolding startsWith_def by (rule arg_cong)
  then have len: "4 \<le> length s"
    by simp
  have "length (dropWhile isDigit (drop 5 s)) \<le> length (drop 5 s)"
    by (rule length_dropWhile_le)
  with len m show ?thesis
    by (auto simp: matchNum_def startsWith_def Let_def split: if_splits)
qed

termination replaceNum
  by (relation "measure (\<lambda>(i, s). length s)") (auto dest: matchNum_shorter)

section \<open>The Planner (services/ImageRenamer.ts)\<close>

definition applyPattern :: "ImageFile \<Rightarrow> RenameConfig \<Rightarrow> number \<Rightarrow> js_error + string" where
  "applyPattern file config index =
     (let name1 = replaceLiteral ''{name}'' (originalName file) [] (pattern config)
      in case toISOString (lastModified file) of
           Inl e \<Rightarrow> Inl e
         | Inr isoStr \<Rightarrow>
             (let dateStr = split_T_0 isoStr;
                  name2 = replaceLiteral ''{date}'' dateStr [] name1;
                  name3 = replaceNum index name2
              in Inr (prefix config @ name3 @ suffix config)))"

definition conflictMessage :: string where
  "conflictMessage = ''Conflict: Filename already exists in destination''"

text \<open>The object literal \<open>{ ...file, newName, status, errorMessage }\<close>.\<close>

definition mkProcessed ::
  "ImageFile \<Rightarrow> string \<Rightarrow> FileStatus \<Rightarrow> string option \<Rightarrow> ProcessedFile" where
  "mkProcessed file n s e = ImageFile.extend file (ProcessedFile.fields n s e)"

text \<open>The body of the \<open>for\<close> loop of \<open>generatePreview\<close>, with its three mutable
  variables \<open>counter\<close>, \<open>usedNames\<close> and \<open>result\<close> passed along.\<close>

fun generatePreview_loop ::
  "RenameConfig \<Rightarrow> ImageFile list \<Rightarrow> number \<Rightarrow> string set \<Rightarrow> ProcessedFile list
     \<Rightarrow> js_error + ProcessedFile list" where
  "generatePreview_loop config [] counter usedNames result = Inr result"
| "generatePreview_loop config (file # files) counter usedNames result =
     (case applyPattern file config counter of
        Inl e \<Rightarrow> Inl e
      | Inr newName' \<Rightarrow>
          (let fullNewName = newName' @ extension file;
               conflict = (toLowerCase fullNewName \<in> usedNames \<and> \<not> overwrite config);
               status' = (if conflict then ERROR else PENDING);
               errorMessage' = (if conflict then Some conflictMessage else None)
           in generatePreview_loop config files (increment counter)
                (insert (toLowerCase fullNewName) usedNames)
                (result @ [mkProcessed file newName' status' errorMessage'])))"

definition generatePreview :: "ImageFile list \<Rightarrow> RenameConfig \<Rightarrow> js_error + ProcessedFile list" where
  "generatePreview files config = generatePreview_loop config files (startNumber config) {} []"

text \<open>The case-insensitively normalised target key of a planned entry.\<close>

definition targetKey :: "ProcessedFile \<Rightarrow> string" where
  "targetKey r = toLowerCase (newName r @ extension r)"

text \<open>The entry that one iteration of the loop pushes, given the name computed for it and
  the keys seen so far.\<close>

definition planEntry :: "RenameConfig \<Rightarrow> ImageFile \<Rightarrow> string \<Rightarrow> string set \<Rightarrow> ProcessedFile" where
  "planEntry cfg f n used =
     (let conflict = (toLowerCase (n @ extension f) \<in> used \<and> \<not> overwrite cfg)
      in mkProcessed f n (if conflict then ERROR else PENDING)
           (if conflict then Some conflictMessage else None))"

section \<open>The storage collaborator and the Resizer (services/ImageResizer.ts)\<close>

text \<open>
  The directory behind a \<open>FileSystemDirectoryHandle\<close> is a map from names to files. Every
  call the Executor makes on the File System Access API or on the Resizer is recorded,
  in order, with its outcome (\<open>True\<close> when it returned, \<open>False\<close> when it threw).
\<close>

datatype DirectoryHandle = DirectoryHandle string

datatype StorageOp =
    GetFile string
  | ShouldResize FileData int
  | ResizeImage FileData int int
  | Move string string
  | GetFileHandle string
  | CreateWritable string
  | Write string FileData
  | Close string
  | RemoveEntry string

record Storage =
  entries :: "string \<rightharpoonup> FileData"
  trace :: "(StorageOp \<times> bool) list"

text \<open>
  What the platform decides: whether it rejects the \<open>k\<close>-th call (permission revoked,
  quota exceeded, file unreadable, \<dots>) and with which error; what the canvas pipeline
  of \<open>resizeImage\<close> produces for a decoded image; what a newly created file holds.
\<close>

record Env =
  rejects :: "nat \<Rightarrow> StorageOp \<Rightarrow> js_error option"
  canvas :: "FileData \<Rightarrow> int \<Rightarrow> int \<Rightarrow> js_error + FileData"
  blank :: FileData

definition record_op :: "StorageOp \<Rightarrow> bool \<Rightarrow> Storage \<Rightarrow> Storage" where
  "record_op op ok st = st\<lparr>trace := trace st @ [(op, ok)]\<rparr>"

text \<open>One awaited call: rejected by the platform, or failing or succeeding by its own
  effect on the directory.\<close>

definition perform ::
  "Env \<Rightarrow> StorageOp \<Rightarrow> ((string \<rightharpoonup> FileData) \<Rightarrow> js_error + ('a \<times> (string \<rightharpoonup> FileData)))
     \<Rightarrow> Storage \<Rightarrow> (js_error + 'a) \<times> Storage" where
  "perform env op effect st =
     (case rejects env (length (trace st)) op of
        Some e \<Rightarrow> (Inl e, record_op op False st)
      | None \<Rightarrow>
          (case effect (entries st) of
             Inl e \<Rightarrow> (Inl e, record_op op False st)
           | Inr (v, m) \<Rightarrow> (Inr v, record_op op True (st\<lparr>entries := m\<rparr>))))"

definition notFound :: js_error where
  "notFound = JsError ''NotFoundError'' ''A requested file or directory could not be found''"

text \<open>\<open>handle.getFile()\<close>\<close>

definition getFile :: "Env \<Rightarrow> FileSystemFileHandle \<Rightarrow> Storage \<Rightarrow> (js_error + FileData) \<times> Storage" where
  "getFile env h =
     perform env (GetFile (handle_name h))
       (\<lambda>m. case m (handle_name h) of None \<Rightarrow> Inl notFound | Some d \<Rightarrow> Inr (d, m))"

text \<open>\<open>handle.move(name)\<close>\<close>

definition move :: "Env \<Rightarrow> FileSystemFileHandle \<Rightarrow> string \<Rightarrow> Storage \<Rightarrow> (js_error + unit) \<times> Storage" where
  "move env h name =
     perform env (Move (handle_name h) name)
       (\<lambda>m. case m (handle_name h) of
               None \<Rightarrow> Inl notFound
             | Some d \<Rightarrow> Inr ((), (m(handle_name h := None))(name \<mapsto> d)))"

text \<open>\<open>dirHandle.getFileHandle(name, { create: true })\<close>\<close>

definition getFileHandle :: "Env \<Rightarrow> string \<Rightarrow> Storage \<Rightarrow> (js_error + string) \<times> Storage" where
  "getFileHandle env name =
     perform env (GetFileHandle name)
       (\<lambda>m. Inr (name, case m name of None \<Rightarrow> m(name \<mapsto> blank env) | Some d \<Rightarrow> m))"

text \<open>\<open>createWritable()\<close>, \<open>write(data)\<close> and \<open>close()\<close>: the data reaches the file when
  the stream is closed.\<close>

definition createWritable :: "Env \<Rightarrow> string \<Rightarrow> Storage \<Rightarrow> (js_error + unit) \<times> Storage" where
  "createWritable env name = perform env (CreateWritable name) (\<lambda>m. Inr ((), m))"

definition writeData :: "Env \<Rightarrow> string \<Rightarrow> FileData \<Rightarrow> Storage \<Rightarrow> (js_error + unit) \<times> Storage" where
  "writeData env name d = perform env (Write name d) (\<lambda>m. Inr ((), m))"

definition closeWritable :: "Env \<Rightarrow> string \<Rightarrow> FileData \<Rightarrow> Storage \<Rightarrow> (js_error + unit) \<times> Storage" where
  "closeWritable env name d = perform env (Close name) (\<lambda>m. Inr ((), m(name \<mapsto> d)))"

text \<open>\<open>dirHandle.removeEntry(name)\<close>\<close>

definition removeEntry :: "Env \<Rightarrow> string \<Rightarrow> Storage \<Rightarrow> (js_error + unit) \<times> Storage" where
  "removeEntry env name =
     perform env (RemoveEntry name)
       (\<lambda>m. case m name of None \<Rightarrow> Inl notFound | Some d \<Rightarrow> Inr ((), m(name := None)))"

text \<open>\<open>shouldResize\<close>: the promise resolves with \<open>img.width > targetWidth\<close> once the image
  has loaded, and rejects when it fails to load (or the platform fails to read the file).\<close>

definition shouldResize :: "Env \<Rightarrow> FileData \<Rightarrow> int \<Rightarrow> Storage \<Rightarrow> (js_error + bool) \<times> Storage" where
  "shouldResize env file targetWidth =
     perform env (ShouldResize file targetWidth)
       (\<lambda>m. case image_dims file of
               None \<Rightarrow> Inl (JsError ''Error'' ''Failed to load image'')
             | Some (w, h) \<Rightarrow> Inr (targetWidth < int w, m))"

definition resizeImage :: "Env \<Rightarrow> FileData \<Rightarrow> int \<Rightarrow> int \<Rightarrow> Storage \<Rightarrow> (js_error + FileData) \<times> Storage" where
  "resizeImage env file targetWidth quality =
     perform env (ResizeImage file targetWidth quality)
       (\<lambda>m. case image_dims file of
               None \<Rightarrow> Inl (JsError ''Error'' ''Failed to load image'')
             | Some (w, h) \<Rightarrow>
                 (case canvas env file targetWidth quality of
                    Inl e \<Rightarrow> Inl e
                  | Inr blob \<Rightarrow> Inr (blob, m)))"

section \<open>The Executor (executeRename, and handleRename of App.tsx)\<close>

text \<open>The first part of the \<open>try\<close> block: the content to write.\<close>

definition readContent ::
  "Env \<Rightarrow> FileSystemFileHandle \<Rightarrow> RenameConfig \<Rightarrow> Storage \<Rightarrow> (js_error + FileData) \<times> Storage" where
  "readContent env h config st =
     (if enableResize config then
        (case getFile env h st of
           (Inl e, st1) \<Rightarrow> (Inl e, st1)
         | (Inr originalFile, st1) \<Rightarrow>
             (case shouldResize env originalFile (resizeWidth config) st1 of
                (Inl e, st2) \<Rightarrow> (Inl e, st2)
              | (Inr should, st2) \<Rightarrow>
                  if should
                  then resizeImage env originalFile (resizeWidth config) (resizeQuality config) st2
                  else (Inr originalFile, st2)))
      else getFile env h st)"

text \<open>The fallback: copy, then delete.\<close>

definition copyAndDelete ::
  "Env \<Rightarrow> RenameConfig \<Rightarrow> string \<Rightarrow> string \<Rightarrow> FileData \<Rightarrow> Storage \<Rightarrow> (js_error + unit) \<times> Storage" where
  "copyAndDelete env config targetFileName fullOldName fileContent st =
     (case getFileHandle env targetFileName st of
        (Inl e, st1) \<Rightarrow> (Inl e, st1)
      | (Inr newFileHandle, st1) \<Rightarrow>
          (case createWritable env newFileHandle st1 of
             (Inl e, st2) \<Rightarrow> (Inl e, st2)
           | (Inr _, st2) \<Rightarrow>
               (case writeData env newFileHandle fileContent st2 of
                  (Inl e, st3) \<Rightarrow> (Inl e, st3)
                | (Inr _, st3) \<Rightarrow>
                    (case closeWritable env newFileHandle fileContent st3 of
                       (Inl e, st4) \<Rightarrow> (Inl e, st4)
                     | (Inr _, st4) \<Rightarrow>
                         if \<not> keepOriginals config \<and> targetFileName \<noteq> fullOldName
                         then removeEntry env fullOldName st4
                         else (Inr (), st4)))))"

definition targetName :: "ProcessedFile \<Rightarrow> RenameConfig \<Rightarrow> string" where
  "targetName file config =
     (if keepOriginals config \<and> enableResize config
      then newName file @ ''_resized'' @ extension file
      else newName file @ extension file)"

definition executeRename ::
  "Env \<Rightarrow> ProcessedFile \<Rightarrow> DirectoryHandle option \<Rightarrow> RenameConfig \<Rightarrow> Storage
     \<Rightarrow> (js_error + unit) \<times> Storage" where
  "executeRename env file dirHandle config st =
     (case (handle file, dirHandle) of
        (Some h, Some dh) \<Rightarrow>
          (let fullNewName = newName file @ extension file;
               fullOldName = originalName file @ extension file
           in if fullNewName = fullOldName \<and> \<not> enableResize config then (Inr (), st)
              else
                (case readContent env h config st of
                   (Inl e, st1) \<Rightarrow> (Inl e, st1)
                 | (Inr fileContent, st1) \<Rightarrow>
                     if has_move h \<and> \<not> enableResize config \<and> \<not> keepOriginals config
                     then move env h fullNewName st1
                     else copyAndDelete env config (targetName file config) fullOldName
                            fileContent st1))
      | _ \<Rightarrow> (Inl (JsError ''Error'' ''Missing file system permissions or handles.''), st))"

text \<open>The \<open>for\<close> loop of \<open>handleRename\<close>: \<open>queue\<close> is the snapshot being walked, \<open>pf\<close> the
  \<open>processedFiles\<close> state that the updates go to, \<open>i\<close> the index.\<close>

fun handleRename_loop ::
  "Env \<Rightarrow> RenameConfig \<Rightarrow> DirectoryHandle option \<Rightarrow> ProcessedFile list \<Rightarrow> nat
     \<Rightarrow> ProcessedFile list \<Rightarrow> Storage \<Rightarrow> ProcessedFile list \<times> Storage" where
  "handleRename_loop env config dirHandle [] i pf st = (pf, st)"
| "handleRename_loop env config dirHandle (file # queue) i pf st =
     (if status file \<noteq> ERROR then
        (case executeRename env file dirHandle config st of
           (Inr _, st') \<Rightarrow>
             handleRename_loop env config dirHandle queue (i + 1)
               (pf[i := (pf ! i)\<lparr>status := SUCCESS\<rparr>]) st'
         | (Inl e, st') \<Rightarrow>
             handleRename_loop env config dirHandle queue (i + 1)
               (pf[i := (pf ! i)\<lparr>status := ERROR, errorMessage := Some ''Write/Move failed''\<rparr>]) st')
      else handleRename_loop env config dirHandle queue (i + 1) pf st)"

definition handleRename ::
  "Env \<Rightarrow> RenameConfig \<Rightarrow> DirectoryHandle option \<Rightarrow> ProcessedFile list \<Rightarrow> Storage
     \<Rightarrow> ProcessedFile list \<times> Storage" where
  "handleRename env config dirHandle processedFiles st =
     (if dryRun config then (processedFiles, st)
      else if dirHandle = None then (processedFiles, st)
      else handleRename_loop env config dirHandle processedFiles 0 processedFiles st)"



section \<open>The Scanner (services/ImageScanner.ts)\<close>

datatype EntryKind = FileKind | DirectoryKind

text \<open>An entry that iterating \<open>dirHandle.values()\<close> yields: its kind, its name, whether
  its handle has the \<open>move\<close> method, and what \<open>getFile()\<close> on it settles with.\<close>

record DirEntry =
  entry_kind :: EntryKind
  entry_name :: string
  entry_has_move :: bool
  entry_getFile :: "js_error + FileData"

text \<open>
  What the browser decides during a scan: whether \<open>showDirectoryPicker\<close> exists on
  \<open>window\<close>; what its promise settles with (an error, or the directory handle together
  with what the iteration yields, an \<open>Inl\<close> item being an error thrown by the iterator);
  the identifiers and object URLs it hands out, by call number; the locale's comparison.
\<close>

record Platform =
  has_showDirectoryPicker :: bool
  showDirectoryPicker :: "js_error + (DirectoryHandle \<times> (js_error + DirEntry) list)"
  random_id :: "nat \<Rightarrow> string"
  createObjectURL :: "nat \<Rightarrow> string"
  localeCompare :: "string \<Rightarrow> string \<Rightarrow> int"

definition allowedExtensions :: "string list" where
  "allowedExtensions = [''.jpg'', ''.jpeg'', ''.png'', ''.webp'', ''.gif'', ''.svg'', ''.tiff'', ''.bmp'']"

text \<open>\<open>fileName.lastIndexOf('.')\<close>, with \<open>None\<close> for \<open>-1\<close>.\<close>

definition lastIndexOf_dot :: "string \<Rightarrow> nat option" where
  "lastIndexOf_dot s =
     (if CHR ''.'' \<in> set s
      then Some (length s - 1 - length (takeWhile (\<lambda>c. c \<noteq> CHR ''.'') (rev s)))
      else None)"

text \<open>The body of the \<open>for await\<close> loop, \<open>files\<close> being the array filled so far.\<close>

fun scanEntries :: "Platform \<Rightarrow> (js_error + DirEntry) list \<Rightarrow> ImageFile list \<Rightarrow> js_error + ImageFile list" where
  "scanEntries p [] files = Inr files"
| "scanEntries p (Inl e # rest) files = Inl e"
| "scanEntries p (Inr entry # rest) files =
     (if entry_kind entry = FileKind then
        (let fileName = entry_name entry in
         case lastIndexOf_dot fileName of
           None \<Rightarrow> scanEntries p rest files
         | Some lastDotIndex \<Rightarrow>
             (let extension' = toLowerCase (drop lastDotIndex fileName);
                  nameWithoutExt = take lastDotIndex fileName
              in if extension' \<in> set allowedExtensions then
                   (case entry_getFile entry of
                      Inl e \<Rightarrow> Inl e
                    | Inr fileData \<Rightarrow>
                        scanEntries p rest
                          (files @
                           [\<lparr>file_id = random_id p (length files),
                             originalName = nameWithoutExt,
                             extension = extension',
                             path = fileName,
                             file_size = length (bytes fileData),
                             lastModified = data_lastModified fileData,
                             previewUrl = Some (createObjectURL p (length files)),
                             fileObject = fileData,
                             handle = Some \<lparr>handle_name = fileName,
                                             has_move = entry_has_move entry\<rparr>\<rparr>]))
                 else scanEntries p rest files))
      else scanEntries p rest files)"

text \<open>\<open>files.sort((a, b) => a.originalName.localeCompare(b.originalName))\<close>: a stable sort,
  written as insertion from the right.\<close>

fun insertByName :: "Platform \<Rightarrow> ImageFile \<Rightarrow> ImageFile list \<Rightarrow> ImageFile list" where
  "insertByName p x [] = [x]"
| "insertByName p x (y # ys) =
     (if localeCompare p (originalName x) (originalName y) \<le> 0 then x # y # ys
      else y # insertByName p x ys)"

definition sortByName :: "Platform \<Rightarrow> ImageFile list \<Rightarrow> ImageFile list" where
  "sortByName p files = foldr (insertByName p) files []"

definition unsupportedMessage :: string where
  "unsupportedMessage =
     ''Your browser does not support the File System Access API. Please use Chrome, Edge, or Opera.''"

text \<open>The \<open>try\<close> block of \<open>scanDirectory\<close>.\<close>

definition scanSelected :: "Platform \<Rightarrow> js_error + (ImageFile list \<times> DirectoryHandle option)" where
  "scanSelected p =
     (case showDirectoryPicker p of
        Inl e \<Rightarrow> Inl e
      | Inr (dirHandle, listing) \<Rightarrow>
          (case scanEntries p listing [] of
             Inl e \<Rightarrow> Inl e
           | Inr files \<Rightarrow> Inr (sortByName p files, Some dirHandle)))"

definition scanDirectory :: "Platform \<Rightarrow> js_error + (ImageFile list \<times> DirectoryHandle option)" where
  "scanDirectory p =
     (if \<not> has_showDirectoryPicker p then Inl (JsError ''Error'' unsupportedMessage)
      else
        (case scanSelected p of
           Inl error \<Rightarrow>
             if err_name error = ''AbortError'' then Inr ([], None) else Inl error
         | Inr res \<Rightarrow> Inr res))"

section \<open>Notions used in the statements\<close>

text \<open>A recorded call is a removal.\<close>

definition isRemoval :: "StorageOp \<times> bool \<Rightarrow> bool" where
  "isRemoval x = (case fst x of RemoveEntry n \<Rightarrow> True | _ \<Rightarrow> False)"

text \<open>The calls of the fallback path, in order, when each of them returns.\<close>

definition commitOps :: "string \<Rightarrow> FileData \<Rightarrow> (StorageOp \<times> bool) list" where
  "commitOps t content =
     [(GetFileHandle t, True), (CreateWritable t, True), (Write t content, True), (Close t, True)]"

text \<open>The characters of a rendered date: digits and signs. The characters of a rendered
  number, and those it can start with.\<close>

definition isDateChar :: "char \<Rightarrow> bool" where
  "isDateChar c = (isDigit c \<or> c = CHR ''-'' \<or> c = CHR ''+'')"

definition isNumberChar :: "char \<Rightarrow> bool" where
  "isNumberChar c = (isDigit c \<or> c \<in> set ''-+.eInfinityNaN'')"

definition isNumberStart :: "char \<Rightarrow> bool" where
  "isNumberStart c = (isDigit c \<or> c \<in> set ''-IN'')"

text \<open>The value of the variable \<open>counter\<close> of \<open>generatePreview\<close> when the loop reaches
  the entry at position \<open>i\<close>, having started from \<open>c\<close>.\<close>

primrec counterAt :: "number \<Rightarrow> nat \<Rightarrow> number" where
  "counterAt c 0 = c"
| "counterAt c (Suc i) = counterAt (increment c) i"

text \<open>The decimal string of an integer.\<close>

definition decimalString :: "int \<Rightarrow> string" where
  "decimalString i = (if i < 0 then CHR ''-'' # nat_digits (nat (- i)) else nat_digits (nat i))"

text \<open>What the Planner reads of an entry and of the configuration, and what it computes
  for an entry.\<close>

definition plannerInputs :: "ImageFile \<Rightarrow> string \<times> string \<times> int" where
  "plannerInputs f = (originalName f, extension f, lastModified f)"

definition plannerOptions :: "RenameConfig \<Rightarrow> string \<times> number \<times> bool \<times> string \<times> string" where
  "plannerOptions c = (pattern c, startNumber c, overwrite c, prefix c, suffix c)"

definition planned :: "ProcessedFile \<Rightarrow> string \<times> FileStatus \<times> string option" where
  "planned r = (newName r, status r, errorMessage r)"

text \<open>\<open>occurs w s\<close>: the text \<open>w\<close> occurs in \<open>s\<close> (as \<open>s.includes(w)\<close>).\<close>

primrec occurs :: "string \<Rightarrow> string \<Rightarrow> bool" where
  "occurs w [] = (w = [])"
| "occurs w (c # cs) = (startsWith (c # cs) w \<or> occurs w cs)"

text \<open>A recorded call is a \<open>write\<close>, is a \<open>resizeImage\<close>; the storage after the first
  \<open>k\<close> entries of a batch.\<close>

definition isWrite :: "StorageOp \<times> bool \<Rightarrow> bool" where
  "isWrite x = (case fst x of Write n d \<Rightarrow> True | _ \<Rightarrow> False)"

definition isResize :: "StorageOp \<times> bool \<Rightarrow> bool" where
  "isResize x = (case fst x of ResizeImage f w q \<Rightarrow> True | _ \<Rightarrow> False)"

definition storageAfter ::
  "Env \<Rightarrow> RenameConfig \<Rightarrow> DirectoryHandle option \<Rightarrow> ProcessedFile list \<Rightarrow> Storage \<Rightarrow> nat \<Rightarrow> Storage" where
  "storageAfter env config dirHandle queue st k =
     snd (handleRename_loop env config dirHandle (take k queue) 0 queue st)"

text \<open>The text of a number token with the digits \<open>ds\<close> written in it (none for the
  bare form).\<close>

definition numToken :: "string \<Rightarrow> string" where
  "numToken ds = (if ds = [] then ''{num}'' else ''{num:'' @ ds @ ''}'')"

section \<open>Example inputs\<close>

definition example_data :: FileData where
  "example_data = \<lparr>bytes = [1, 2, 3], mime_type = ''image/jpeg'', data_lastModified = 0,
     image_dims = Some (1000, 500)\<rparr>"

definition example_file :: "string \<Rightarrow> string \<Rightarrow> ImageFile" where
  "example_file n e = \<lparr>file_id = n, originalName = n, extension = e, path = n @ e,
     file_size = 3, lastModified = 0, previewUrl = None, fileObject = example_data,
     handle = Some \<lparr>handle_name = n @ e, has_move = False\<rparr>\<rparr>"

definition example_config :: "string \<Rightarrow> RenameConfig" where
  "example_config p = \<lparr>pattern = p, startNumber = Finite 1, recursive = False, dryRun = False,
     overwrite = False, prefix = [], suffix = [], enableResize = False, resizeWidth = 1920,
     resizeQuality = 85, keepOriginals = False\<rparr>"

definition example_plan :: "ProcessedFile list" where
  "example_plan = [mkProcessed (example_file ''a'' ''.jpg'') ''Img'' PENDING None,
                   mkProcessed (example_file ''b'' ''.JPG'') ''Img'' ERROR (Some conflictMessage)]"

definition example_env :: Env where
  "example_env = \<lparr>rejects = (\<lambda>k op. None), canvas = (\<lambda>f w q. Inr f),
     blank = \<lparr>bytes = [], mime_type = [], data_lastModified = 0, image_dims = None\<rparr>\<rparr>"

definition example_storage :: Storage where
  "example_storage = \<lparr>entries = [''a.jpg'' \<mapsto> example_data], trace = []\<rparr>"

definition example_planned :: ProcessedFile where
  "example_planned = mkProcessed (example_file ''a'' ''.jpg'') ''img_001'' PENDING None"

definition example_storage_after :: Storage where
  "example_storage_after =
     \<lparr>entries = [''img_001.jpg'' \<mapsto> example_data],
      trace = [(GetFile ''a.jpg'', True), (GetFileHandle ''img_001.jpg'', True),
               (CreateWritable ''img_001.jpg'', True), (Write ''img_001.jpg'' example_data, True),
               (Close ''img_001.jpg'', True), (RemoveEntry ''a.jpg'', True)]\<rparr>"

definition example_resize_config :: RenameConfig where
  "example_resize_config = (example_config ''img_{num:003}'')\<lparr>enableResize := True\<rparr>"

definition example_storage_unresized :: Storage where
  "example_storage_unresized =
     \<lparr>entries = [''img_001.jpg'' \<mapsto> example_data],
      trace = [(GetFile ''a.jpg'', True), (ShouldResize example_data 1920, True),
               (GetFileHandle ''img_001.jpg'', True),
               (CreateWritable ''img_001.jpg'', True), (Write ''img_001.jpg'' example_data, True),
               (Close ''img_001.jpg'', True), (RemoveEntry ''a.jpg'', True)]\<rparr>"

definition example_queue :: "ProcessedFile list" where
  "example_queue =
     [example_planned\<lparr>handle := None\<rparr>,
      example_planned\<lparr>status := ERROR, errorMessage := Some conflictMessage\<rparr>,
      example_planned]"

definition example_platform :: Platform where
  "example_platform =
     \<lparr>has_showDirectoryPicker = True,
      showDirectoryPicker = Inr (DirectoryHandle ''photos'',
        [Inr \<lparr>entry_kind = FileKind, entry_name = ''b.JPG'', entry_has_move = False,
              entry_getFile = Inr example_data\<rparr>,
         Inr \<lparr>entry_kind = DirectoryKind, entry_name = ''sub.jpg'', entry_has_move = False,
              entry_getFile = Inl notFound\<rparr>,
         Inr \<lparr>entry_kind = FileKind, entry_name = ''notes.txt'', entry_has_move = False,
              entry_getFile = Inr example_data\<rparr>,
         Inr \<lparr>entry_kind = FileKind, entry_name = ''README'', entry_has_move = False,
              entry_getFile = Inr example_data\<rparr>,
         Inr \<lparr>entry_kind = FileKind, entry_name = ''a.x.png'', entry_has_move = False,
              entry_getFile = Inr example_data\<rparr>]),
      random_id = (\<lambda>k. if k = 0 then ''id0'' else ''id1''),
      createObjectURL = (\<lambda>k. if k = 0 then ''blob:0'' else ''blob:1''),
      localeCompare = (\<lambda>a b. if a = b then 0 else if a = ''a.x'' then - 1 else 1)\<rparr>"

section \<open>Properties of the Planner\<close>

lemma mk_sel:
  "newName (mkProcessed f n s e) = n"
  "status (mkProcessed f n s e) = s"
  "errorMessage (mkProcessed f n s e) = e"
  "extension (mkProcessed f n s e) = extension f"
  "originalName (mkProcessed f n s e) = originalName f"
  "ImageFile.truncate (mkProcessed f n s e) = f"
  by (simp_all add: mkProcessed_def ImageFile.extend_def ProcessedFile.fields_def ImageFile.truncate_def)

lemma loop_acc:
  "generatePreview_loop cfg files counter used result =
   map_sum id (\<lambda>out. result @ out) (generatePreview_loop cfg files counter used [])"
proof (induction files arbitrary: counter used result)
  case Nil
  show ?case by simp
next
  case (Cons f fs)
  show ?case
  proof (cases "applyPattern f cfg counter")
    case (Inl e)
    then show ?thesis by simp
  next
    case (Inr n)
    let ?p = "planEntry cfg f n used"
    let ?u = "insert (toLowerCase (n @ extension f)) used"
    have l: "generatePreview_loop cfg (f # fs) counter used result =
             generatePreview_loop cfg fs (increment counter) ?u (result @ [?p])"
      using Inr by (simp add: Let_def planEntry_def)
    have r: "generatePreview_loop cfg (f # fs) counter used [] =
             generatePreview_loop cfg fs (increment counter) ?u [?p]"
      using Inr by (simp add: Let_def planEntry_def)
    show ?thesis
      unfolding l r
      by (subst Cons.IH [of _ _ "result @ [?p]"], subst Cons.IH [of _ _ "[?p]"],
          cases "generatePreview_loop cfg fs (increment counter) ?u []") simp_all
  qed
qed

lemma loop_Cons:
  "generatePreview_loop cfg (f # fs) counter used [] =
     (case applyPattern f cfg counter of
        Inl e \<Rightarrow> Inl e
      | Inr n \<Rightarrow> map_sum id ((#) (planEntry cfg f n used))
          (generatePreview_loop cfg fs (increment counter) (insert (toLowerCase (n @ extension f)) used) []))"
proof (cases "applyPattern f cfg counter")
  case (Inl e)
  then show ?thesis by simp
next
  case (Inr n)
  then show ?thesis
    by (simp add: Let_def planEntry_def
          loop_acc [of _ _ _ _ "[mkProcessed f n a b]" for a b])
qed

declare generatePreview_loop.simps(2) [simp del]

lemma map_sum_Inr_iff: "(map_sum f g x = Inr y) = (\<exists>z. x = Inr z \<and> y = g z)"
  by (cases x) auto

lemma loop_length:
  "generatePreview_loop cfg files counter used [] = Inr out \<Longrightarrow> length out = length files"
proof (induction files arbitrary: counter used out)
  case Nil
  then show ?case by simp
next
  case (Cons f fs)
  then show ?case
    by (auto simp: loop_Cons map_sum_Inr_iff split: sum.splits)
qed

lemma loop_names:
  "generatePreview_loop cfg files counter used [] = Inr out \<Longrightarrow> i < length files \<Longrightarrow>
   applyPattern (files ! i) cfg (counterAt counter i) = Inr (newName (out ! i)) \<and>
   ImageFile.truncate (out ! i) = files ! i"
proof (induction files arbitrary: counter used out i)
  case Nil
  then show ?case by simp
next
  case (Cons f fs)
  from Cons.prems(1) obtain n out' where
    n: "applyPattern f cfg counter = Inr n" and
    out: "out = planEntry cfg f n used # out'" and
    rest: "generatePreview_loop cfg fs (increment counter) (insert (toLowerCase (n @ extension f)) used) [] = Inr out'"
    by (auto simp: loop_Cons map_sum_Inr_iff split: sum.splits)
  show ?case
  proof (cases i)
    case 0
    then show ?thesis using n out by (simp add: planEntry_def Let_def mk_sel)
  next
    case (Suc k)
    then have "k < length fs" using Cons.prems(2) by simp
    from Cons.IH [OF rest this] show ?thesis
      using Suc out by simp
  qed
qed

lemma loop_status:
  "generatePreview_loop cfg files counter used [] = Inr out \<Longrightarrow> i < length files \<Longrightarrow>
   (let conflict = (\<not> overwrite cfg \<and>
        (targetKey (out ! i) \<in> used \<or> (\<exists>j<i. targetKey (out ! j) = targetKey (out ! i))))
    in status (out ! i) = (if conflict then ERROR else PENDING) \<and>
       errorMessage (out ! i) = (if conflict then Some conflictMessage else None))"
proof (induction files arbitrary: counter used out i)
  case Nil
  then show ?case by simp
next
  case (Cons f fs)
  from Cons.prems(1) obtain n out' where
    n: "applyPattern f cfg counter = Inr n" and
    out: "out = planEntry cfg f n used # out'" and
    rest: "generatePreview_loop cfg fs (increment counter) (insert (toLowerCase (n @ extension f)) used) [] = Inr out'"
    by (auto simp: loop_Cons map_sum_Inr_iff split: sum.splits)
  have key0: "targetKey (planEntry cfg f n used) = toLowerCase (n @ extension f)"
    by (simp add: targetKey_def planEntry_def Let_def mk_sel)
  show ?case
  proof (cases i)
    case 0
    then show ?thesis using out key0
      by (simp add: planEntry_def Let_def mk_sel targetKey_def)
  next
    case (Suc k)
    then have k: "k < length fs" using Cons.prems(2) by simp
    have ex: "(\<exists>j<Suc k. targetKey ((planEntry cfg f n used # out') ! j) = x) =
              (toLowerCase (n @ extension f) = x \<or> (\<exists>j<k. targetKey (out' ! j) = x))" for x
      by (auto simp: less_Suc_eq_0_disj key0)
    from Cons.IH [OF rest k] show ?thesis
      unfolding Suc out Let_def ex by (auto simp: Let_def)
  qed
qed

subsection \<open>The replacement passes: text without tokens, and the number token\<close>

lemma startsWith_Cons_hd: "tok \<noteq> [] \<Longrightarrow> startsWith (c # cs) tok \<Longrightarrow> hd tok = c"
  by (cases tok) (auto simp: startsWith_def)

lemma replaceLiteral_append_skip:
  "hd tok \<notin> set pre \<Longrightarrow>
   replaceLiteral tok tmpl b (pre @ s) = pre @ replaceLiteral tok tmpl (b @ pre) s"
proof (induction pre arbitrary: b)
  case Nil
  then show ?case by simp
next
  case (Cons c pre)
  then have nm: "\<not> (tok \<noteq> [] \<and> startsWith (c # pre @ s) tok)"
    by (auto dest: startsWith_Cons_hd)
  have "replaceLiteral tok tmpl b ((c # pre) @ s) =
        c # replaceLiteral tok tmpl (b @ [c]) (pre @ s)"
    using nm by auto
  also have "\<dots> = c # pre @ replaceLiteral tok tmpl ((b @ [c]) @ pre) s"
    using Cons by simp
  finally show ?case by simp
qed

lemma replaceLiteral_skip: "hd tok \<notin> set s \<Longrightarrow> replaceLiteral tok tmpl b s = s"
  using replaceLiteral_append_skip [of tok s tmpl b "[]"] by simp

lemma matchNum_not_brace: "CHR ''{'' \<noteq> c \<Longrightarrow> matchNum (c # cs) = None"
  by (auto simp: matchNum_def startsWith_def)

lemma replaceNum_append_skip:
  "CHR ''{'' \<notin> set pre \<Longrightarrow> replaceNum index (pre @ s) = pre @ replaceNum index s"
  by (induction pre) (simp_all add: matchNum_not_brace)

lemma replaceNum_skip: "CHR ''{'' \<notin> set s \<Longrightarrow> replaceNum index s = s"
  using replaceNum_append_skip [of s index "[]"] by simp

lemma matchNum_plain: "matchNum (''{num}'' @ s) = Some (None, s)"
  by (simp add: matchNum_def startsWith_def)

lemma matchNum_padded:
  assumes "ds \<noteq> []" and "\<forall>c\<in>set ds. isDigit c"
  shows "matchNum (''{num:'' @ ds @ ''}'' @ s) = Some (Some ds, s)"
proof -
  have nd: "\<not> isDigit (CHR ''}'')"
    by (simp add: isDigit_def)
  have tw: "takeWhile isDigit (ds @ CHR ''}'' # s) = ds"
    using assms(2) nd by (simp add: takeWhile_append2)
  have dw: "dropWhile isDigit (ds @ CHR ''}'' # s) = CHR ''}'' # s"
    using assms(2) nd by (simp add: dropWhile_append2)
  have nc: "ds @ CHR ''}'' # s \<noteq> []" by simp
  show ?thesis
    using assms(1) by (simp add: matchNum_def startsWith_def tw dw Let_def)
qed

lemma replaceNum_plain:
  "replaceNum index (''{num}'' @ s) = toString index @ replaceNum index s"
  using matchNum_plain [of s] by (simp add: numReplacement_def)

lemma replaceNum_padded:
  assumes "ds \<noteq> []" and "\<forall>c\<in>set ds. isDigit c"
  shows "replaceNum index (''{num:'' @ ds @ ''}'' @ s) =
         padStart (length ds) (CHR ''0'') (toString index) @ replaceNum index s"
  using matchNum_padded [OF assms, of s] assms(1) by (simp add: numReplacement_def)

lemma replaceLiteral_not_num:
  assumes "tok = ''{name}'' \<or> tok = ''{date}''"
    and "CHR ''{'' \<notin> set pre" and "CHR ''{'' \<notin> set r"
  shows "replaceLiteral tok tmpl b (pre @ ''{num'' @ r) = pre @ ''{num'' @ r"
proof -
  have hd: "hd tok = CHR ''{''" using assms(1) by auto
  have "replaceLiteral tok tmpl b' (''{num'' @ r) = ''{num'' @ r" for b'
    using assms(1,3) by (auto simp: startsWith_def replaceLiteral_skip)
  then show ?thesis
    using assms(2) hd by (simp add: replaceLiteral_append_skip)
qed

subsection \<open>The characters of rendered numbers and dates\<close>

lemma isDigit_digit_char: "d < 10 \<Longrightarrow> isDigit (digit_char d)"
  unfolding digit_char_def isDigit_def by (rule nth_mem) simp

lemma nat_digits_digits: "\<forall>c\<in>set (nat_digits n). isDigit c"
proof (induction n rule: nat_digits.induct)
  case (1 n)
  show ?case
  proof (cases "n < 10")
    case True
    then show ?thesis
      using isDigit_digit_char [of n] by (subst nat_digits.simps) simp
  next
    case False
    have "n mod 10 < 10" by simp
    then have "isDigit (digit_char (n mod 10))"
      by (rule isDigit_digit_char)
    with False "1.IH" show ?thesis
      by (subst nat_digits.simps) simp
  qed
qed

lemma nat_digits_nonempty: "nat_digits n \<noteq> []"
  by (subst nat_digits.simps) simp

lemma isDigit_0: "isDigit (CHR ''0'')"
  by (simp add: isDigit_def)

lemma isDigit_number:
  "isDigit c \<Longrightarrow> isNumberChar c" "isDigit c \<Longrightarrow> isNumberStart c"
  by (simp_all add: isNumberChar_def isNumberStart_def)

lemma numberToString_chars:
  "numberToString x \<noteq> [] \<and> isDigit (hd (numberToString x)) \<and>
   (\<forall>c\<in>set (numberToString x). isNumberChar c)"
proof -
  have ne: "nat_digits s \<noteq> []" for s
    by (rule nat_digits_nonempty)
  have dg: "c \<in> set (nat_digits s) \<Longrightarrow> isDigit c" for s c
    using nat_digits_digits [of s] by blast
  have hd: "isDigit (hd (nat_digits s))" for s
    using ne [of s] dg [of _ s] by simp
  have tl: "c \<in> set (tl (nat_digits s)) \<Longrightarrow> isDigit c" for s c
    using ne [of s] dg [of c s] by (metis list.set_sel(2))
  have sp: "isNumberChar (CHR ''0'')" "isNumberChar (CHR ''e'')" "isNumberChar (CHR ''+'')"
    "isNumberChar (CHR ''.'')"
    by (simp_all add: isNumberChar_def isDigit_def)
  obtain s e where se:
    "(if roundToDouble (10 ^ length (nat_digits x)) = x then (1, length (nat_digits x))
      else shortestDigits x (length (nat_digits x) - 1)) = (s, e)"
    by fastforce
  have eq: "numberToString x =
     (if length (nat_digits s) + e \<le> 21 then nat_digits s @ replicate e (CHR ''0'')
      else if length (nat_digits s) = 1
        then nat_digits s @ ''e+'' @ nat_digits (length (nat_digits s) + e - 1)
      else hd (nat_digits s) # ''.'' @ tl (nat_digits s) @ ''e+''
           @ nat_digits (length (nat_digits s) + e - 1))"
    unfolding numberToString_def Let_def se by simp
  show ?thesis
    unfolding eq using ne [of s] hd [of s] sp
    by (auto dest: dg tl intro: isDigit_number(1))
qed

lemma toString_chars:
  "toString n \<noteq> [] \<and> isNumberStart (hd (toString n)) \<and> (\<forall>c\<in>set (toString n). isNumberChar c)"
proof (cases n)
  case (Finite i)
  have "isNumberStart (CHR ''0'')" "isNumberChar (CHR ''0'')"
    "isNumberStart (CHR ''-'')" "isNumberChar (CHR ''-'')"
    by (simp_all add: isNumberStart_def isNumberChar_def isDigit_def)
  then show ?thesis
    using numberToString_chars [of "nat i"] numberToString_chars [of "nat (- i)"] Finite
    by (auto intro: isDigit_number(2))
qed (simp_all add: isNumberStart_def isNumberChar_def)

lemma isNumberChar_not_brace: "\<not> isNumberChar (CHR ''{'')"
  by (simp add: isNumberChar_def isDigit_def)

lemma pad_nat_digits: "\<forall>c\<in>set (pad_nat w i). isDigit c"
  using nat_digits_digits [of "nat i"] by (auto simp: pad_nat_def padStart_def isDigit_0)

lemma pad_nat_nonempty: "pad_nat w i \<noteq> []"
  by (simp add: pad_nat_def padStart_def nat_digits_nonempty)

lemma year_string_chars: "\<forall>c\<in>set (year_string y). isDateChar c"
  using pad_nat_digits [of 4 y] pad_nat_digits [of 6 y] pad_nat_digits [of 6 "- y"]
  by (simp add: year_string_def isDateChar_def)

lemma year_string_nonempty: "year_string y \<noteq> []"
  by (simp add: year_string_def pad_nat_nonempty)

lemma isDateChar_not:
  assumes "isDateChar c"
  shows "c \<noteq> CHR ''T''" "c \<noteq> CHR ''$''" "c \<noteq> CHR ''{''" "c \<noteq> CHR ''}''"
  using assms by (auto simp: isDateChar_def isDigit_def)

lemma toISOString_Inr_iff:
  "(\<exists>s. toISOString t = Inr s) \<longleftrightarrow> - maxTime \<le> t \<and> t \<le> maxTime"
proof (cases "t < - maxTime \<or> maxTime < t")
  case True
  then show ?thesis by (auto simp: toISOString_def)
next
  case False
  then have "\<exists>s. toISOString t = Inr s"
    by (simp add: toISOString_def Let_def split_def)
  with False show ?thesis by auto
qed

lemma getSubstitution_no_dollar:
  "CHR ''$'' \<notin> set t \<Longrightarrow> getSubstitution m p f t = t"
  by (induction m p f t rule: getSubstitution.induct) auto

subsection \<open>Numbers between \<open>-2^53\<close> and \<open>2^53\<close>\<close>

lemma bit_length_upper: "v < 2 ^ bit_length v"
proof (induction v rule: bit_length.induct)
  case (1 n)
  show ?case
  proof (cases "n = 0")
    case True
    then show ?thesis by simp
  next
    case False
    have dbl: "n < 2 * K" if "n div 2 < K" for K :: nat
      using that by arith
    from "1.IH" [OF False] have "n < 2 * 2 ^ bit_length (n div 2)"
      by (rule dbl)
    then show ?thesis
      using False by (subst bit_length.simps) simp
  qed
qed

lemma bit_length_lower: "0 < v \<Longrightarrow> 2 ^ (bit_length v - 1) \<le> v"
proof (induction v rule: bit_length.induct)
  case (1 n)
  then have n: "n \<noteq> 0" by simp
  have bl: "bit_length n = Suc (bit_length (n div 2))"
    using n by (subst bit_length.simps) simp
  show ?case
  proof (cases "n div 2 = 0")
    case True
    then have "bit_length (n div 2) = 0"
      by (subst bit_length.simps) simp
    then show ?thesis
      using n bl by simp
  next
    case False
    then have ih: "2 ^ (bit_length (n div 2) - 1) \<le> n div 2"
      using "1.IH" [OF n] by simp
    have "0 < bit_length (n div 2)"
      using False by (subst bit_length.simps) simp
    then obtain m where m: "bit_length (n div 2) = Suc m"
      using gr0_implies_Suc by blast
    have dbl: "2 * K \<le> n" if "K \<le> n div 2" for K :: nat
      using that by arith
    from ih have "2 * 2 ^ m \<le> n"
      unfolding m by (intro dbl) simp
    then show ?thesis
      unfolding bl m by simp
  qed
qed

lemma roundToDouble_large:
  assumes "9007199254740992 \<le> v"
  shows "9007199254740992 \<le> roundToDouble v"
proof -
  let ?L = "bit_length v"
  let ?u = "(2::nat) ^ (?L - 53)"
  have p53: "(2::nat) ^ 53 = 9007199254740992"
    by simp
  have "v < 2 ^ ?L"
    by (rule bit_length_upper)
  with assms have "(2::nat) ^ 53 < 2 ^ ?L"
    unfolding p53 by (rule le_less_trans)
  then have "53 < ?L"
    by (rule power_less_imp_less_exp [rotated]) simp
  then have "54 \<le> ?L"
    by simp
  then obtain d where d: "?L = 54 + d"
    using le_Suc_ex by blast
  have low: "2 ^ (?L - 1) \<le> v"
    using assms by (intro bit_length_lower) simp
  have e1: "?L - 1 = 52 + (1 + d)" and e2: "?L - 53 = 1 + d"
    using d by simp_all
  have split: "(2::nat) ^ (?L - 1) = 2 ^ 52 * ?u"
    unfolding e1 e2 by (rule power_add)
  have "2 ^ 52 * ?u \<le> v"
    using low unfolding split .
  then have "2 ^ 52 \<le> v div ?u"
    by (simp add: less_eq_div_iff_mult_less_eq)
  then have "2 ^ 52 * ?u \<le> v div ?u * ?u"
    by (rule mult_le_mono1)
  moreover have "(2::nat) ^ 53 \<le> 2 ^ 52 * ?u"
  proof -
    have "(2::nat) ^ 53 = 2 ^ 52 * 2"
      by simp
    moreover have "(2::nat) \<le> 2 ^ (1 + d)"
      by simp
    ultimately show ?thesis
      unfolding e2 by (simp only: mult_le_mono2)
  qed
  ultimately have q: "9007199254740992 \<le> v div ?u * ?u"
    unfolding p53 by (rule order_trans [rotated])
  then have "9007199254740992 \<le> (v div ?u + 1) * ?u"
    by (simp add: add_mult_distrib)
  with q assms show ?thesis
    unfolding roundToDouble_def Let_def by simp
qed

lemma roundToDouble_eq_small:
  assumes "x < 9007199254740992"
  shows "(roundToDouble v = x) = (v = x)"
proof (cases "v < 9007199254740992")
  case True
  then show ?thesis by (simp add: roundToDouble_def)
next
  case False
  then have "9007199254740992 \<le> roundToDouble v"
    by (intro roundToDouble_large) simp
  with assms False show ?thesis by simp
qed

lemma digitCandidate_small:
  assumes "x < 9007199254740992"
  shows "digitCandidate x e = (if 10 ^ e dvd x then Some (x div 10 ^ e) else None)"
proof -
  let ?p = "(10::nat) ^ e"
  have lo: "(x div ?p * ?p = x) = (?p dvd x)"
    by (metis dvd_div_mult_self dvd_triv_right)
  have "x mod ?p < ?p"
    by simp
  then have "x < x div ?p * ?p + ?p"
    using div_mult_mod_eq [of x ?p] by linarith
  then have hi: "(x div ?p + 1) * ?p \<noteq> x"
    by (simp add: add_mult_distrib)
  show ?thesis
    unfolding digitCandidate_def Let_def roundToDouble_eq_small [OF assms]
    using lo hi by simp
qed

lemma shortestDigits_small:
  assumes "x < 9007199254740992"
  shows "shortestDigits x e0 = (s, e) \<Longrightarrow> x = s * 10 ^ e"
proof (induction e0)
  case 0
  then show ?case by simp
next
  case (Suc e0)
  show ?case
  proof (cases "10 ^ Suc e0 dvd x")
    case True
    with Suc.prems have "s = x div 10 ^ Suc e0" "e = Suc e0"
      by (auto simp: digitCandidate_small [OF assms])
    with True show ?thesis
      by (simp only: dvd_div_mult_self)
  next
    case False
    with Suc.prems have "shortestDigits x e0 = (s, e)"
      by (simp add: digitCandidate_small [OF assms])
    then show ?thesis by (rule Suc.IH)
  qed
qed

lemma digit_char_0: "digit_char 0 = CHR ''0''"
  by (simp add: digit_char_def)

lemma nat_digits_shift:
  "0 < s \<Longrightarrow> nat_digits (s * 10 ^ e) = nat_digits s @ replicate e (CHR ''0'')"
proof (induction e)
  case 0
  show ?case by simp
next
  case (Suc e)
  have "\<not> s * 10 ^ e * 10 < 10"
    using Suc.prems by simp
  then have "nat_digits (s * 10 ^ e * 10) = nat_digits (s * 10 ^ e) @ [CHR ''0'']"
    by (subst nat_digits.simps) (simp add: digit_char_0)
  then show ?case
    using Suc by (simp add: mult.assoc replicate_append_same mult.commute [of 10])
qed

lemma nat_digits_length_less: "x < 10 ^ length (nat_digits x)"
proof (induction x rule: nat_digits.induct)
  case (1 n)
  show ?case
  proof (cases "n < 10")
    case True
    then show ?thesis by (subst nat_digits.simps) simp
  next
    case False
    have ten: "n < 10 * K" if "n div 10 < K" for K :: nat
      using that by arith
    from "1.IH" [OF False] have "n < 10 * 10 ^ length (nat_digits (n div 10))"
      by (rule ten)
    then show ?thesis
      using False by (subst nat_digits.simps) simp
  qed
qed

lemma nat_digits_length_le: "x < 10 ^ m \<Longrightarrow> 0 < m \<Longrightarrow> length (nat_digits x) \<le> m"
proof (induction x arbitrary: m rule: nat_digits.induct)
  case (1 n)
  show ?case
  proof (cases "n < 10")
    case True
    then show ?thesis
      using "1.prems"(2) by (subst nat_digits.simps) simp
  next
    case False
    obtain k where k: "m = Suc k"
      using "1.prems"(2) gr0_implies_Suc by blast
    have "k \<noteq> 0"
      using "1.prems"(1) False k by (cases "k = 0") auto
    moreover have "n div 10 < 10 ^ k"
      using "1.prems"(1) unfolding k by (simp add: less_mult_imp_div_less mult.commute)
    ultimately have "length (nat_digits (n div 10)) \<le> k"
      using "1.IH" [OF False] by simp
    then show ?thesis
      using False unfolding k by (subst nat_digits.simps) simp
  qed
qed

lemma numberToString_small:
  assumes "0 < x" and "x < 9007199254740992"
  shows "numberToString x = nat_digits x"
proof -
  let ?len = "length (nat_digits x)"
  have "x < 10 ^ ?len"
    by (rule nat_digits_length_less)
  then have first: "roundToDouble (10 ^ ?len) \<noteq> x"
    unfolding roundToDouble_eq_small [OF assms(2)] by simp
  obtain s e where se: "shortestDigits x (?len - 1) = (s, e)"
    by fastforce
  then have x: "x = s * 10 ^ e"
    by (rule shortestDigits_small [OF assms(2)])
  then have "0 < s"
    using assms(1) by (cases s) simp_all
  then have digits: "nat_digits x = nat_digits s @ replicate e (CHR ''0'')"
    unfolding x by (rule nat_digits_shift)
  have "x < 10 ^ 16"
    using assms(2) by simp
  then have "?len \<le> 16"
    by (rule nat_digits_length_le) simp
  then have "length (nat_digits s) + e \<le> 21"
    unfolding digits by simp
  then show ?thesis
    unfolding numberToString_def Let_def using first se digits by simp
qed

lemma bit_length_numeral:
  "bit_length 0 = 0" "bit_length 1 = 1" "bit_length (Suc 0) = 1"
  "bit_length (numeral k) = Suc (bit_length (numeral k div 2))"
  by (subst bit_length.simps, simp add: bit_length.simps [of 0])+

lemma shortestDigits_numeral:
  "shortestDigits x (numeral k) =
     (case digitCandidate x (numeral k) of
        Some s \<Rightarrow> (s, numeral k)
      | None \<Rightarrow> shortestDigits x (pred_numeral k))"
  unfolding numeral_eq_Suc by simp

lemma roundToDouble_2_53:
  "roundToDouble 9007199254740992 = 9007199254740992"
  "roundToDouble 9007199254740993 = 9007199254740992"
  by (simp_all add: roundToDouble_def bit_length_numeral Let_def)

lemma nat_digits_2_53: "nat_digits 9007199254740992 = ''9007199254740992''"
  by (simp add: nat_digits.simps digit_char_def)

lemma shortestDigits_2_53: "shortestDigits 9007199254740992 15 = (9007199254740992, 0)"
  by (simp add: shortestDigits_numeral digitCandidate_def roundToDouble_def bit_length_numeral Let_def)

lemma numberToString_2_53: "numberToString 9007199254740992 = ''9007199254740992''"
proof -
  have len: "length (nat_digits 9007199254740992) = 16"
    by (simp add: nat_digits_2_53)
  have first: "roundToDouble (10 ^ 16) \<noteq> 9007199254740992"
    by (simp add: roundToDouble_def bit_length_numeral Let_def)
  show ?thesis
    unfolding numberToString_def len Let_def using first
    by (simp add: shortestDigits_2_53 nat_digits_2_53)
qed

lemma numberToString_safe:
  assumes "0 < x" and "x \<le> 9007199254740992"
  shows "numberToString x = nat_digits x"
proof (cases "x = 9007199254740992")
  case True
  then show ?thesis
    by (simp only: numberToString_2_53 nat_digits_2_53)
next
  case False
  with assms show ?thesis
    by (intro numberToString_small) simp_all
qed

lemma toString_safe:
  assumes "- 9007199254740992 \<le> n" and "n \<le> 9007199254740992"
  shows "toString (Finite n) = decimalString n"
proof -
  have "nat_digits 0 = ''0''"
    by (subst nat_digits.simps) (simp add: digit_char_0)
  moreover have "numberToString (nat n) = nat_digits (nat n)" if "0 < n"
    using that assms(2) by (intro numberToString_safe) simp_all
  moreover have "numberToString (nat (- n)) = nat_digits (nat (- n))" if "n < 0"
    using that assms(1) by (intro numberToString_safe) simp_all
  ultimately show ?thesis
    by (simp add: decimalString_def)
qed

lemma roundToDouble_exact: "v \<le> 9007199254740992 \<Longrightarrow> roundToDouble v = v"
  by (cases "v = 9007199254740992") (simp_all add: roundToDouble_2_53, simp add: roundToDouble_def)

lemma increment_safe:
  assumes "- 9007199254740992 \<le> n + 1" and "n + 1 \<le> 9007199254740992"
  shows "increment (Finite n) = Finite (n + 1)"
proof (cases "0 \<le> n + 1")
  case True
  then have "nat (n + 1) \<le> 9007199254740992"
    using assms(2) by linarith
  then have "roundToDouble (nat (n + 1)) = nat (n + 1)"
    by (rule roundToDouble_exact)
  with True show ?thesis by simp
next
  case False
  then have "nat (- (n + 1)) \<le> 9007199254740992"
    using assms(1) by linarith
  then have "roundToDouble (nat (- (n + 1))) = nat (- (n + 1))"
    by (rule roundToDouble_exact)
  with False show ?thesis by simp
qed

lemma counterAt_safe:
  "- 9007199254740992 \<le> s \<Longrightarrow> s + int i \<le> 9007199254740992 \<Longrightarrow>
   counterAt (Finite s) i = Finite (s + int i)"
proof (induction i arbitrary: s)
  case 0
  show ?case by simp
next
  case (Suc i)
  have "increment (Finite s) = Finite (s + 1)"
    using Suc.prems by (intro increment_safe) simp_all
  moreover have "counterAt (Finite (s + 1)) i = Finite (s + 1 + int i)"
    using Suc.prems by (intro Suc.IH) simp_all
  ultimately show ?case
    by (simp add: add.assoc add.commute [of 1])
qed

declare increment.simps(1) [simp del] toString.simps(1) [simp del]

subsection \<open>Evaluation on the example inputs\<close>

lemma replicate_numeral: "replicate (numeral k) x = x # replicate (pred_numeral k) x"
  by (simp add: numeral_eq_Suc)

lemma pad_nat_examples:
  "pad_nat 2 1 = ''01''" "pad_nat 2 0 = ''00''" "pad_nat 3 0 = ''000''" "pad_nat 4 1970 = ''1970''"
  by (simp_all add: pad_nat_def padStart_def nat_digits.simps digit_char_def replicate_numeral)

lemma civil_from_days_0: "civil_from_days 0 = (1970, 1, 1)"
  unfolding civil_from_days_def Let_def by simp

lemma toISOString_0: "toISOString 0 = Inr ''1970-01-01T00:00:00.000Z''"
  unfolding toISOString_def maxTime_def msPerDay_def Let_def
  by (simp add: civil_from_days_0 year_string_def pad_nat_examples)

lemma applyPattern_Img:
  "applyPattern (example_file n e) (example_config ''Img'') k = Inr ''Img''"
  unfolding applyPattern_def Let_def example_file_def example_config_def
  by (simp add: toISOString_0 split_T_0_def startsWith_def matchNum_def)

lemma toLowerCase_examples:
  "toLowerCase ''Img.jpg'' = ''img.jpg''" "toLowerCase ''Img.JPG'' = ''img.jpg''"
  by (simp_all add: toLowerCase_def lower_char_def char_of_def bit_Suc_0_iff)

lemma example_plan_eq:
  "generatePreview [example_file ''a'' ''.jpg'', example_file ''b'' ''.JPG''] (example_config ''Img'')
     = Inr example_plan"
proof -
  have e: "extension (example_file n x) = x" "\<not> overwrite (example_config p)" for n x p
    by (simp_all add: example_file_def example_config_def)
  show ?thesis
    unfolding generatePreview_def generatePreview_loop.simps applyPattern_Img Let_def example_plan_def
    by (simp add: e toLowerCase_examples)
qed

subsection \<open>Conflict detection and the counter\<close>

text \<open>
  Claim C1. In the plan, the entry at position \<open>i\<close> has status Error exactly when
  \<open>overwrite\<close> is false and some earlier entry \<open>j < i\<close> has the same lower-cased
  target key (\<open>newName + extension\<close>); every other entry is Pending. Earlier entries
  count whether or not they were themselves flagged, since every key is recorded.
\<close>

theorem conflict_iff_earlier_duplicate:
  assumes "generatePreview files config = Inr plan"
  shows "length plan = length files \<and>
         (\<forall>i<length files.
            (status (plan ! i) = ERROR \<longleftrightarrow>
               \<not> overwrite config \<and> (\<exists>j<i. targetKey (plan ! j) = targetKey (plan ! i))) \<and>
            (status (plan ! i) \<noteq> ERROR \<longrightarrow> status (plan ! i) = PENDING) \<and>
            (errorMessage (plan ! i) =
               (if status (plan ! i) = ERROR then Some conflictMessage else None)))"
proof (intro conjI allI impI)
  from assms have loop: "generatePreview_loop config files (startNumber config) {} [] = Inr plan"
    by (simp add: generatePreview_def)
  show "length plan = length files"
    using loop by (rule loop_length)
  fix i assume i: "i < length files"
  note st = loop_status [OF loop i, unfolded Let_def, simplified]
  show "status (plan ! i) = ERROR \<longleftrightarrow>
          \<not> overwrite config \<and> (\<exists>j<i. targetKey (plan ! j) = targetKey (plan ! i))"
    using st by (auto split: if_splits)
  show "errorMessage (plan ! i) = (if status (plan ! i) = ERROR then Some conflictMessage else None)"
    using st by (auto split: if_splits)
  assume "status (plan ! i) \<noteq> ERROR"
  then show "status (plan ! i) = PENDING"
    using st by (auto split: if_splits)
qed

theorem conflict_iff_earlier_duplicate_witness:
  "generatePreview [example_file ''a'' ''.jpg'', example_file ''b'' ''.JPG''] (example_config ''Img'')
     = Inr example_plan \<and>
   length example_plan = 2 \<and>
   (status (example_plan ! 1) = ERROR \<longleftrightarrow>
      \<not> overwrite (example_config ''Img'') \<and>
      (\<exists>j<1. targetKey (example_plan ! j) = targetKey (example_plan ! 1))) \<and>
   status (example_plan ! 1) = ERROR \<and>
   status (example_plan ! 0) = PENDING"
proof -
  note t = conflict_iff_earlier_duplicate [OF example_plan_eq]
  have len: "length example_plan = 2"
    using t by simp
  have i1: "(1::nat) < length [example_file ''a'' ''.jpg'', example_file ''b'' ''.JPG'']"
    by simp
  have i0: "(0::nat) < length [example_file ''a'' ''.jpg'', example_file ''b'' ''.JPG'']"
    by simp
  from t i1 have iff1:
    "status (example_plan ! 1) = ERROR \<longleftrightarrow>
       \<not> overwrite (example_config ''Img'') \<and>
       (\<exists>j<1. targetKey (example_plan ! j) = targetKey (example_plan ! 1))"
    by blast
  have "targetKey (example_plan ! 0) = targetKey (example_plan ! 1)"
    by (simp add: example_plan_def targetKey_def mk_sel example_file_def toLowerCase_examples)
  then have dup: "\<exists>j<1. targetKey (example_plan ! j) = targetKey (example_plan ! 1)"
    by auto
  have now: "\<not> overwrite (example_config ''Img'')"
    by (simp add: example_config_def)
  have e1: "status (example_plan ! 1) = ERROR"
    using iff1 dup now by blast
  from t i0 have "status (example_plan ! 0) = ERROR \<longleftrightarrow>
       \<not> overwrite (example_config ''Img'') \<and>
       (\<exists>j<0. targetKey (example_plan ! j) = targetKey (example_plan ! 0))"
    by blast
  then have "status (example_plan ! 0) \<noteq> ERROR"
    by simp
  with t i0 have e0: "status (example_plan ! 0) = PENDING"
    by blast
  show ?thesis
    using example_plan_eq len iff1 e1 e0 by blast
qed

subsection \<open>When the Planner throws, and what it depends on\<close>

lemma toISOString_date_chars:
  assumes "toISOString t = Inr s"
  shows "(\<forall>c\<in>set (split_T_0 s). isDateChar c) \<and> split_T_0 s \<noteq> []"
proof -
  obtain y m d where c: "civil_from_days (t div msPerDay) = (y, m, d)"
    by (cases "civil_from_days (t div msPerDay)") auto
  let ?d = "year_string y @ ''-'' @ pad_nat 2 m @ ''-'' @ pad_nat 2 d"
  have v: "\<not> (t < - maxTime \<or> maxTime < t)"
    using assms by (cases "t < - maxTime \<or> maxTime < t") (simp_all add: toISOString_def)
  then have "\<exists>r. toISOString t = Inr (?d @ CHR ''T'' # r)"
    by (simp add: toISOString_def Let_def c)
  with assms obtain r where s: "s = ?d @ CHR ''T'' # r"
    by auto
  have chars: "\<forall>c\<in>set ?d. isDateChar c"
    using year_string_chars [of y] pad_nat_digits [of 2 m] pad_nat_digits [of 2 d]
    by (auto simp: isDateChar_def)
  then have "\<And>x. x \<in> set ?d \<Longrightarrow> x \<noteq> CHR ''T''"
    using isDateChar_not(1) by blast
  then have "takeWhile (\<lambda>c. c \<noteq> CHR ''T'') (?d @ CHR ''T'' # r) =
             ?d @ takeWhile (\<lambda>c. c \<noteq> CHR ''T'') (CHR ''T'' # r)"
    by (rule takeWhile_append2)
  then have "split_T_0 s = ?d"
    by (simp add: split_T_0_def s)
  with chars year_string_nonempty [of y] show ?thesis
    by simp
qed

lemma applyPattern_eq:
  "toISOString (lastModified f) = Inr isoStr \<Longrightarrow>
   applyPattern f c i =
     Inr (prefix c @ replaceNum i (replaceLiteral ''{date}'' (split_T_0 isoStr) []
            (replaceLiteral ''{name}'' (originalName f) [] (pattern c))) @ suffix c)"
  by (simp add: applyPattern_def Let_def)

lemma applyPattern_Inl:
  "toISOString (lastModified f) = Inl e \<Longrightarrow> applyPattern f c i = Inl e"
  by (simp add: applyPattern_def Let_def)

lemma applyPattern_Inr_iff:
  "(\<exists>s. applyPattern f c i = Inr s) \<longleftrightarrow> - maxTime \<le> lastModified f \<and> lastModified f \<le> maxTime"
proof (cases "toISOString (lastModified f)")
  case (Inl e)
  then show ?thesis
    using toISOString_Inr_iff [of "lastModified f"] by (simp add: applyPattern_Inl)
next
  case (Inr s)
  then show ?thesis
    using toISOString_Inr_iff [of "lastModified f"] by (simp add: applyPattern_eq)
qed

lemma applyPattern_out_of_range:
  "lastModified f < - maxTime \<or> maxTime < lastModified f \<Longrightarrow>
   applyPattern f c i = Inl (JsError ''RangeError'' ''Invalid time value'')"
  by (simp add: applyPattern_Inl toISOString_def)

lemma loop_Inr_iff:
  "(\<exists>out. generatePreview_loop cfg files counter used [] = Inr out) \<longleftrightarrow>
   (\<forall>f\<in>set files. - maxTime \<le> lastModified f \<and> lastModified f \<le> maxTime)"
proof (induction files arbitrary: counter used)
  case Nil
  show ?case by simp
next
  case (Cons f fs)
  show ?case
  proof (cases "applyPattern f cfg counter")
    case (Inl e)
    then have "\<not> (\<exists>s. applyPattern f cfg counter = Inr s)" by simp
    then have "\<not> (- maxTime \<le> lastModified f \<and> lastModified f \<le> maxTime)"
      using applyPattern_Inr_iff [of f cfg counter] by blast
    moreover have "\<not> (\<exists>out. generatePreview_loop cfg (f # fs) counter used [] = Inr out)"
      using Inl by (simp add: loop_Cons)
    ultimately show ?thesis by auto
  next
    case (Inr n)
    then have "\<exists>s. applyPattern f cfg counter = Inr s" by simp
    then have v: "- maxTime \<le> lastModified f \<and> lastModified f \<le> maxTime"
      using applyPattern_Inr_iff [of f cfg counter] by blast
    show ?thesis
      using Inr v Cons.IH [of "increment counter" "insert (toLowerCase (n @ extension f)) used"]
      by (simp add: loop_Cons map_sum_Inr_iff)
  qed
qed

text \<open>
  Claim C5 (as amended). The Planner returns a plan exactly when the timestamp of every
  entry is a valid time value (at most 8.64e15 ms from the epoch); it encodes name
  conflicts as entry status, but \<open>toISOString\<close> throws a RangeError for a timestamp out
  of that range, and nothing in the Planner catches it.
\<close>

theorem planner_returns_iff_dates_valid:
  "(\<exists>plan. generatePreview files config = Inr plan) \<longleftrightarrow>
   (\<forall>f\<in>set files. - maxTime \<le> lastModified f \<and> lastModified f \<le> maxTime)"
  unfolding generatePreview_def by (rule loop_Inr_iff)

text \<open>An entry whose timestamp is one millisecond past the range makes the Planner throw.\<close>

theorem planner_throws_counterexample:
  "generatePreview [example_file ''a'' ''.jpg'', (example_file ''b'' ''.jpg'') \<lparr>lastModified := 8640000000000001\<rparr>]
     (example_config ''Img'') = Inl (JsError ''RangeError'' ''Invalid time value'')"
proof -
  have "applyPattern ((example_file ''b'' ''.jpg'') \<lparr>lastModified := 8640000000000001\<rparr>) c i
          = Inl (JsError ''RangeError'' ''Invalid time value'')" for c i
    by (rule applyPattern_out_of_range) (simp add: maxTime_def)
  then show ?thesis
    unfolding generatePreview_def generatePreview_loop.simps applyPattern_Img Let_def
    by simp
qed

theorem planner_returns_iff_dates_valid_witness:
  "(\<exists>plan. generatePreview [example_file ''a'' ''.jpg'', example_file ''b'' ''.JPG'']
             (example_config ''Img'') = Inr plan) \<and>
   - maxTime \<le> lastModified (example_file ''a'' ''.jpg'') \<and>
   lastModified (example_file ''a'' ''.jpg'') \<le> maxTime \<and>
   - maxTime \<le> lastModified (example_file ''b'' ''.JPG'') \<and>
   lastModified (example_file ''b'' ''.JPG'') \<le> maxTime"
proof -
  have "\<exists>plan. generatePreview [example_file ''a'' ''.jpg'', example_file ''b'' ''.JPG'']
             (example_config ''Img'') = Inr plan"
    using example_plan_eq by blast
  with planner_returns_iff_dates_valid
    [of "[example_file ''a'' ''.jpg'', example_file ''b'' ''.JPG'']" "example_config ''Img''"]
  show ?thesis by simp
qed


lemma applyPattern_cong:
  "plannerInputs f = plannerInputs f' \<Longrightarrow> plannerOptions c = plannerOptions c' \<Longrightarrow>
   applyPattern f c i = applyPattern f' c' i"
  by (auto simp: plannerInputs_def plannerOptions_def applyPattern_def Let_def split: sum.splits)

lemma map_sum_cons_cong:
  "map_sum id (map g) X = map_sum id (map g) Y \<Longrightarrow> g e = g e' \<Longrightarrow>
   map_sum id (map g) (map_sum id ((#) e) X) = map_sum id (map g) (map_sum id ((#) e') Y)"
  by (cases X; cases Y) auto

lemma planned_planEntry:
  "planned (planEntry c f n used) =
     (n, if toLowerCase (n @ extension f) \<in> used \<and> \<not> overwrite c then ERROR else PENDING,
         if toLowerCase (n @ extension f) \<in> used \<and> \<not> overwrite c then Some conflictMessage else None)"
  by (simp add: planned_def planEntry_def Let_def mk_sel)

lemma loop_noninterference:
  assumes "plannerOptions c = plannerOptions c'"
  shows "map plannerInputs files = map plannerInputs files' \<Longrightarrow>
         map_sum id (map planned) (generatePreview_loop c files counter used []) =
         map_sum id (map planned) (generatePreview_loop c' files' counter used [])"
proof (induction files arbitrary: files' counter used)
  case Nil
  then show ?case by simp
next
  case (Cons f fs)
  then obtain f' fs' where files': "files' = f' # fs'"
    and f: "plannerInputs f = plannerInputs f'"
    and fs: "map plannerInputs fs = map plannerInputs fs'"
    by (cases files') auto
  have ap: "applyPattern f c counter = applyPattern f' c' counter"
    using f assms by (rule applyPattern_cong)
  have ext: "extension f = extension f'" and ov: "overwrite c = overwrite c'"
    using f assms by (simp_all add: plannerInputs_def plannerOptions_def)
  show ?case
  proof (cases "applyPattern f c counter")
    case (Inl e)
    then show ?thesis using ap by (simp add: files' loop_Cons)
  next
    case (Inr n)
    let ?u = "insert (toLowerCase (n @ extension f)) used"
    have p: "planned (planEntry c f n used) = planned (planEntry c' f' n used)"
      by (simp add: planned_planEntry ext ov)
    have ih: "map_sum id (map planned) (generatePreview_loop c fs (increment counter) ?u []) =
              map_sum id (map planned) (generatePreview_loop c' fs' (increment counter) ?u [])"
      using fs by (rule Cons.IH)
    have l: "generatePreview_loop c (f # fs) counter used [] =
             map_sum id ((#) (planEntry c f n used)) (generatePreview_loop c fs (increment counter) ?u [])"
      using Inr by (simp add: loop_Cons)
    have r: "generatePreview_loop c' (f' # fs') counter used [] =
             map_sum id ((#) (planEntry c' f' n used)) (generatePreview_loop c' fs' (increment counter) ?u [])"
      using Inr ap ext by (simp add: loop_Cons)
    show ?thesis
      unfolding files' l r by (rule map_sum_cons_cong [OF ih p])
  qed
qed

lemma loop_truncate:
  "generatePreview_loop c files counter used [] = Inr out \<Longrightarrow> map ImageFile.truncate out = files"
proof -
  assume a: "generatePreview_loop c files counter used [] = Inr out"
  have len: "length out = length files"
    using a by (rule loop_length)
  show ?thesis
  proof (rule nth_equalityI)
    show "length (map ImageFile.truncate out) = length files"
      using len by simp
    fix i assume "i < length (map ImageFile.truncate out)"
    then have i: "i < length files" using len by simp
    from loop_names [OF a i] show "map ImageFile.truncate out ! i = files ! i"
      using i len by simp
  qed
qed

text \<open>
  Claim C6. The names, statuses and messages of the plan are a function of what the
  Planner reads and of nothing else: two runs on entries and configurations that agree on
  \<open>originalName\<close>, \<open>extension\<close>, \<open>lastModified\<close> and on \<open>pattern\<close>, \<open>startNumber\<close>,
  \<open>overwrite\<close>, \<open>prefix\<close>, \<open>suffix\<close> (identical inputs in particular) give the same
  sequence, or throw the same error. The plan carries every input entry unchanged.
\<close>

theorem planner_deterministic:
  assumes "map plannerInputs files = map plannerInputs files'"
    and "plannerOptions config = plannerOptions config'"
  shows "map_sum id (map planned) (generatePreview files config) =
         map_sum id (map planned) (generatePreview files' config') \<and>
         (\<forall>plan. generatePreview files config = Inr plan \<longrightarrow>
            map ImageFile.truncate plan = files)"
proof
  have sn: "startNumber config = startNumber config'"
    using assms(2) by (simp add: plannerOptions_def)
  show "map_sum id (map planned) (generatePreview files config) =
        map_sum id (map planned) (generatePreview files' config')"
    unfolding generatePreview_def sn
    using assms(2) assms(1) by (rule loop_noninterference)
  show "\<forall>plan. generatePreview files config = Inr plan \<longrightarrow> map ImageFile.truncate plan = files"
    unfolding generatePreview_def by (auto dest: loop_truncate)
qed

theorem planner_deterministic_witness:
  "map plannerInputs [example_file ''a'' ''.jpg'', example_file ''b'' ''.JPG''] =
   map plannerInputs [(example_file ''a'' ''.jpg'') \<lparr>file_id := ''x''\<rparr>, example_file ''b'' ''.JPG''] \<and>
   plannerOptions (example_config ''Img'') = plannerOptions ((example_config ''Img'') \<lparr>dryRun := True\<rparr>) \<and>
   map_sum id (map planned)
     (generatePreview [(example_file ''a'' ''.jpg'') \<lparr>file_id := ''x''\<rparr>, example_file ''b'' ''.JPG'']
        ((example_config ''Img'') \<lparr>dryRun := True\<rparr>)) =
   Inr [(''Img'', PENDING, None), (''Img'', ERROR, Some conflictMessage)] \<and>
   map ImageFile.truncate example_plan = [example_file ''a'' ''.jpg'', example_file ''b'' ''.JPG'']"
proof -
  have h1: "map plannerInputs [example_file ''a'' ''.jpg'', example_file ''b'' ''.JPG''] =
    map plannerInputs [(example_file ''a'' ''.jpg'') \<lparr>file_id := ''x''\<rparr>, example_file ''b'' ''.JPG'']"
    by (simp add: plannerInputs_def)
  have h2: "plannerOptions (example_config ''Img'') =
            plannerOptions ((example_config ''Img'') \<lparr>dryRun := True\<rparr>)"
    by (simp add: plannerOptions_def)
  note t = planner_deterministic [OF h1 h2]
  have "map_sum id (map planned)
          (generatePreview [example_file ''a'' ''.jpg'', example_file ''b'' ''.JPG''] (example_config ''Img''))
        = Inr [(''Img'', PENDING, None), (''Img'', ERROR, Some conflictMessage)]"
    by (simp add: example_plan_eq example_plan_def planned_def mk_sel)
  with t h1 h2 example_plan_eq show ?thesis
    by simp
qed

subsection \<open>The counter and the number token\<close>

lemma isDigit_not_brace: "isDigit c \<Longrightarrow> c \<noteq> CHR ''{''"
  by (auto simp: isDigit_def)

lemma plan_names:
  assumes "generatePreview files config = Inr plan" and "i < length files"
  shows "applyPattern (files ! i) config (counterAt (startNumber config) i) = Inr (newName (plan ! i))"
proof -
  from assms(1) have "generatePreview_loop config files (startNumber config) {} [] = Inr plan"
    by (simp add: generatePreview_def)
  from loop_names [OF this assms(2)] show ?thesis by simp
qed

lemma applyPattern_valid:
  "applyPattern f c i = Inr s \<Longrightarrow> \<exists>isoStr. toISOString (lastModified f) = Inr isoStr"
  by (cases "toISOString (lastModified f)") (simp_all add: applyPattern_Inl)

lemma applyPattern_plain_token:
  assumes "toISOString (lastModified f) = Inr isoStr"
    and "pattern c = pre @ ''{num}'' @ post"
    and "CHR ''{'' \<notin> set pre" and "CHR ''{'' \<notin> set post"
  shows "applyPattern f c i = Inr (prefix c @ pre @ toString i @ post @ suffix c)"
proof -
  have r: "CHR ''{'' \<notin> set (''}'' @ post)"
    using assms(4) by simp
  have p: "pattern c = pre @ ''{num'' @ (''}'' @ post)"
    using assms(2) by simp
  have keep: "replaceLiteral tok tmpl b (pattern c) = pattern c"
    if "tok = ''{name}'' \<or> tok = ''{date}''" for tok tmpl b
    unfolding p using that assms(3) r by (rule replaceLiteral_not_num)
  have "replaceNum i (pattern c) = pre @ replaceNum i (''{num}'' @ post)"
    unfolding assms(2) using assms(3) by (rule replaceNum_append_skip)
  also have "\<dots> = pre @ toString i @ replaceNum i post"
    by (simp only: replaceNum_plain)
  also have "\<dots> = pre @ toString i @ post"
    using assms(4) by (simp add: replaceNum_skip)
  finally show ?thesis
    by (simp add: applyPattern_eq [OF assms(1)] keep)
qed

lemma applyPattern_padded_token:
  assumes "toISOString (lastModified f) = Inr isoStr"
    and "pattern c = pre @ ''{num:'' @ ds @ ''}'' @ post"
    and "CHR ''{'' \<notin> set pre" and "CHR ''{'' \<notin> set post"
    and "ds \<noteq> []" and "\<forall>d\<in>set ds. isDigit d"
  shows "applyPattern f c i =
         Inr (prefix c @ pre @ padStart (length ds) (CHR ''0'') (toString i) @ post @ suffix c)"
proof -
  have "CHR ''{'' \<notin> set ds"
    using assms(6) isDigit_not_brace by blast
  then have r: "CHR ''{'' \<notin> set ('':'' @ ds @ ''}'' @ post)"
    using assms(4) by simp
  have p: "pattern c = pre @ ''{num'' @ ('':'' @ ds @ ''}'' @ post)"
    using assms(2) by simp
  have keep: "replaceLiteral tok tmpl b (pattern c) = pattern c"
    if "tok = ''{name}'' \<or> tok = ''{date}''" for tok tmpl b
    unfolding p using that assms(3) r by (rule replaceLiteral_not_num)
  have "replaceNum i (pattern c) = pre @ replaceNum i (''{num:'' @ ds @ ''}'' @ post)"
    unfolding assms(2) using assms(3) by (rule replaceNum_append_skip)
  also have "\<dots> = pre @ padStart (length ds) (CHR ''0'') (toString i) @ replaceNum i post"
    by (simp only: replaceNum_padded [OF assms(5,6)])
  also have "\<dots> = pre @ padStart (length ds) (CHR ''0'') (toString i) @ post"
    using assms(4) by (simp add: replaceNum_skip)
  finally show ?thesis
    by (simp add: applyPattern_eq [OF assms(1)] keep)
qed

lemma example_fields:
  "extension (example_file n x) = x" "lastModified (example_file n x) = 0"
  "originalName (example_file n x) = n"
  "pattern (example_config p) = p" "prefix (example_config p) = []" "suffix (example_config p) = []"
  "startNumber (example_config p) = Finite 1" "\<not> overwrite (example_config p)"
  by (simp_all add: example_file_def example_config_def)

lemma decimalString_examples: "decimalString 1 = ''1''" "decimalString 2 = ''2''"
  by (simp_all add: decimalString_def nat_digits.simps digit_char_def)

lemma toString_examples: "toString (Finite 1) = ''1''" "toString (Finite 2) = ''2''"
  by (simp_all add: toString_safe decimalString_examples)

lemma increment_example: "increment (Finite 1) = Finite 2"
  by (simp add: increment_safe)

lemma counterAt_example: "counterAt (Finite 1) 1 = Finite 2"
  by (simp add: increment_example)

lemma example_plan_num_eq:
  "generatePreview [example_file ''a'' ''.jpg'', example_file ''b'' ''.JPG''] (example_config ''{num}'')
     = Inr [mkProcessed (example_file ''a'' ''.jpg'') ''1'' PENDING None,
            mkProcessed (example_file ''b'' ''.JPG'') ''2'' PENDING None]"
proof -
  have ap: "applyPattern (example_file n e) (example_config ''{num}'') k = Inr (toString k)" for n e k
    using applyPattern_plain_token [of "example_file n e" _ "example_config ''{num}''" "[]" "[]" k]
    by (simp add: example_fields toISOString_0)
  have lc: "toLowerCase ''1.jpg'' = ''1.jpg''" "toLowerCase ''2.JPG'' = ''2.jpg''"
    by (simp_all add: toLowerCase_def lower_char_def char_of_def bit_Suc_0_iff)
  show ?thesis
    unfolding generatePreview_def generatePreview_loop.simps ap Let_def
    by (simp add: example_fields increment_example toString_examples lc)
qed

lemma example_plan_padded_eq:
  "generatePreview [example_file ''a'' ''.jpg'', example_file ''b'' ''.JPG'']
     (example_config ''img_{num:003}'')
     = Inr [mkProcessed (example_file ''a'' ''.jpg'') ''img_001'' PENDING None,
            mkProcessed (example_file ''b'' ''.JPG'') ''img_002'' PENDING None]"
proof -
  have dg: "\<forall>d\<in>set ''003''. isDigit d"
    by (simp add: isDigit_def)
  have ap: "applyPattern (example_file n e) (example_config ''img_{num:003}'') k
              = Inr (''img_'' @ padStart 3 (CHR ''0'') (toString k))" for n e k
    using applyPattern_padded_token
      [of "example_file n e" _ "example_config ''img_{num:003}''" "''img_''" "''003''" "[]" k] dg
    by (simp add: example_fields toISOString_0 numeral_3_eq_3)
  have lc: "toLowerCase ''img_001.jpg'' = ''img_001.jpg''" "toLowerCase ''img_002.JPG'' = ''img_002.jpg''"
    by (simp_all add: toLowerCase_def lower_char_def char_of_def bit_Suc_0_iff)
  show ?thesis
    unfolding generatePreview_def generatePreview_loop.simps ap Let_def
    by (simp add: example_fields increment_example toString_examples lc padStart_def replicate_numeral)
qed

subsection \<open>Numbers beyond \<open>2^53\<close>\<close>

lemma increment_stalls:
  "increment (Finite 9007199254740991) = Finite 9007199254740992"
  "increment (Finite 9007199254740992) = Finite 9007199254740992"
  by (simp_all add: increment.simps roundToDouble_2_53)

lemma toString_2_53: "toString (Finite 9007199254740992) = ''9007199254740992''"
  by (simp add: toString.simps numberToString_2_53)

lemma toString_2_53_pred: "toString (Finite 9007199254740991) = ''9007199254740991''"
  by (simp add: toString_safe decimalString_def nat_digits.simps digit_char_def)

lemma nat_digits_1e21:
  "nat_digits 1000000000000000000000 = ''1000000000000000000000''"
  "nat_digits 21 = ''21''" "nat_digits (Suc 0) = ''1''"
  by (simp_all add: nat_digits.simps digit_char_def)

lemma digitCandidate_1e21: "digitCandidate 1000000000000000000000 21 = Some 1"
  by (simp add: digitCandidate_def roundToDouble_def bit_length_numeral Let_def)

lemma numberToString_1e21: "numberToString 1000000000000000000000 = ''1e+21''"
proof -
  have len: "length (nat_digits 1000000000000000000000) = 22"
    by (simp add: nat_digits_1e21)
  have first: "roundToDouble (10 ^ 22) \<noteq> 1000000000000000000000"
    by (simp add: roundToDouble_def bit_length_numeral Let_def)
  have sd: "shortestDigits 1000000000000000000000 21 = (1, 21)"
    by (simp add: shortestDigits_numeral digitCandidate_1e21)
  show ?thesis
    unfolding numberToString_def len Let_def using first by (simp add: sd nat_digits_1e21)
qed

lemma toString_1e21: "toString (Finite 1000000000000000000000) = ''1e+21''"
  by (simp add: toString.simps numberToString_1e21)

subsection \<open>The counter\<close>

text \<open>
  Claim C2 (as amended). The number handed to the pattern engine for the entry at
  position \<open>i\<close> is the value the counter has after \<open>i\<close> increments, whatever the conflict
  status of this or any other entry. When \<open>startNumber\<close> is an integer not below \<open>-2^53\<close>
  and \<open>startNumber + i\<close> is not above \<open>2^53\<close>, that value is \<open>startNumber + i\<close>, and with
  the pattern \<open>{num}\<close> the new name is that number in decimal between prefix and suffix.
  Beyond that range \<open>counter++\<close>, an addition of doubles, no longer adds one.
\<close>

theorem counter_is_start_plus_position:
  assumes "generatePreview files config = Inr plan" and "i < length files"
  shows "applyPattern (files ! i) config (counterAt (startNumber config) i)
           = Inr (newName (plan ! i)) \<and>
         (\<forall>s. startNumber config = Finite s \<and> - 9007199254740992 \<le> s \<and>
              s + int i \<le> 9007199254740992 \<longrightarrow>
            counterAt (startNumber config) i = Finite (s + int i) \<and>
            applyPattern (files ! i) config (Finite (s + int i)) = Inr (newName (plan ! i)) \<and>
            (pattern config = ''{num}'' \<longrightarrow>
               newName (plan ! i) = prefix config @ decimalString (s + int i) @ suffix config))"
proof (intro conjI allI impI, goal_cases)
  case 1
  show ?case using assms by (rule plan_names)
next
  case (2 s)
  then show ?case by (simp add: counterAt_safe)
next
  case (3 s)
  then have "counterAt (startNumber config) i = Finite (s + int i)"
    by (simp add: counterAt_safe)
  with plan_names [OF assms] show ?case by simp
next
  case (4 s)
  then have c: "counterAt (startNumber config) i = Finite (s + int i)"
    by (simp add: counterAt_safe)
  have n: "applyPattern (files ! i) config (Finite (s + int i)) = Inr (newName (plan ! i))"
    using plan_names [OF assms] c by simp
  then obtain isoStr where v: "toISOString (lastModified (files ! i)) = Inr isoStr"
    using applyPattern_valid by blast
  have "pattern config = [] @ ''{num}'' @ []"
    using 4 by simp
  from applyPattern_plain_token [OF v this] n
  have "newName (plan ! i) = prefix config @ toString (Finite (s + int i)) @ suffix config"
    by simp
  moreover have "toString (Finite (s + int i)) = decimalString (s + int i)"
    using 4 by (intro toString_safe) simp_all
  ultimately show ?case by simp
qed

theorem counter_is_start_plus_position_witness:
  "generatePreview [example_file ''a'' ''.jpg'', example_file ''b'' ''.JPG''] (example_config ''{num}'')
     = Inr [mkProcessed (example_file ''a'' ''.jpg'') ''1'' PENDING None,
            mkProcessed (example_file ''b'' ''.JPG'') ''2'' PENDING None] \<and>
   (1::nat) < length [example_file ''a'' ''.jpg'', example_file ''b'' ''.JPG''] \<and>
   startNumber (example_config ''{num}'') = Finite 1 \<and>
   - 9007199254740992 \<le> (1::int) \<and> 1 + int 1 \<le> 9007199254740992 \<and>
   pattern (example_config ''{num}'') = ''{num}'' \<and>
   counterAt (Finite 1) 1 = Finite 2 \<and>
   applyPattern (example_file ''b'' ''.JPG'') (example_config ''{num}'') (Finite 2) = Inr ''2'' \<and>
   newName (mkProcessed (example_file ''b'' ''.JPG'') ''2'' PENDING None) = decimalString 2"
proof -
  have i1: "(1::nat) < length [example_file ''a'' ''.jpg'', example_file ''b'' ''.JPG'']"
    by simp
  from counter_is_start_plus_position [OF example_plan_num_eq i1]
  have "counterAt (Finite 1) 1 = Finite 2 \<and>
        applyPattern (example_file ''b'' ''.JPG'') (example_config ''{num}'') (Finite 2) = Inr ''2'' \<and>
        newName (mkProcessed (example_file ''b'' ''.JPG'') ''2'' PENDING None) = decimalString 2"
    by (simp add: example_fields mk_sel counterAt_example)
  then show ?thesis
    using example_plan_num_eq by (simp add: example_fields)
qed

text \<open>
  Started at \<open>2^53 - 1\<close>, the counter reaches \<open>2^53\<close> and stays there: the third entry
  gets the number of the second, not \<open>startNumber + 2\<close>, and is flagged as a conflict.
\<close>

theorem counter_stalls_counterexample:
  "generatePreview [example_file ''a'' ''.jpg'', example_file ''b'' ''.jpg'', example_file ''c'' ''.jpg'']
     ((example_config ''{num}'') \<lparr>startNumber := Finite 9007199254740991\<rparr>)
     = Inr [mkProcessed (example_file ''a'' ''.jpg'') ''9007199254740991'' PENDING None,
            mkProcessed (example_file ''b'' ''.jpg'') ''9007199254740992'' PENDING None,
            mkProcessed (example_file ''c'' ''.jpg'') ''9007199254740992'' ERROR (Some conflictMessage)] \<and>
   counterAt (Finite 9007199254740991) 2 = Finite 9007199254740992 \<and>
   decimalString (9007199254740991 + 2) = ''9007199254740993''"
proof -
  let ?c = "(example_config ''{num}'') \<lparr>startNumber := Finite 9007199254740991\<rparr>"
  have ap: "applyPattern (example_file n e) ?c k = Inr (toString k)" for n e k
    using applyPattern_plain_token [of "example_file n e" _ ?c "[]" "[]" k]
    by (simp add: example_fields toISOString_0)
  have lc: "toLowerCase ''9007199254740991.jpg'' = ''9007199254740991.jpg''"
    "toLowerCase ''9007199254740992.jpg'' = ''9007199254740992.jpg''"
    by (simp_all add: toLowerCase_def lower_char_def char_of_def bit_Suc_0_iff)
  have c2: "counterAt (Finite 9007199254740991) 2 = Finite 9007199254740992"
    by (simp add: numeral_2_eq_2 increment_stalls)
  have d: "decimalString (9007199254740991 + 2) = ''9007199254740993''"
    by (simp add: decimalString_def nat_digits.simps digit_char_def)
  have "generatePreview [example_file ''a'' ''.jpg'', example_file ''b'' ''.jpg'', example_file ''c'' ''.jpg''] ?c
     = Inr [mkProcessed (example_file ''a'' ''.jpg'') ''9007199254740991'' PENDING None,
            mkProcessed (example_file ''b'' ''.jpg'') ''9007199254740992'' PENDING None,
            mkProcessed (example_file ''c'' ''.jpg'') ''9007199254740992'' ERROR (Some conflictMessage)]"
    unfolding generatePreview_def generatePreview_loop.simps ap Let_def
    by (simp add: example_fields increment_stalls toString_2_53 toString_2_53_pred lc)
  with c2 d show ?thesis by simp
qed

subsection \<open>Tokens injected by the name pass\<close>

lemma startsWith_Nil [simp]: "startsWith s []"
  by (simp add: startsWith_def)

lemma startsWith_Nil_left [simp]: "startsWith [] w = (w = [])"
  by (auto simp: startsWith_def)

lemma startsWith_Cons_Cons [simp]:
  "startsWith (c # s) (x # w) = (c = x \<and> startsWith s w)"
  by (auto simp: startsWith_def)

lemma startsWith_append_self: "startsWith (w @ r) w"
  by (simp add: startsWith_def)

lemma occurs_skip:
  "w \<noteq> [] \<Longrightarrow> hd w \<notin> set xs \<Longrightarrow> occurs w (xs @ ys) = occurs w ys"
proof (induction xs)
  case Nil
  then show ?case by simp
next
  case (Cons c xs)
  then have "\<not> startsWith (c # xs @ ys) w"
    by (cases w) auto
  with Cons show ?case by simp
qed

lemma occurs_append: "occurs w ys \<Longrightarrow> occurs w (xs @ ys)"
  by (induction xs) simp_all

lemma replaceLiteral_startsWith:
  assumes "tmpl \<noteq> []" and "CHR ''$'' \<notin> set tmpl"
  shows "set w \<inter> set tmpl = {} \<Longrightarrow> startsWith (replaceLiteral tok tmpl b s) w \<Longrightarrow> startsWith s w"
proof (induction w arbitrary: s b)
  case Nil
  show ?case by simp
next
  case (Cons x w)
  show ?case
  proof (cases s)
    case Nil
    with Cons.prems show ?thesis by simp
  next
    case s: (Cons c cs)
    show ?thesis
    proof (cases "tok \<noteq> [] \<and> startsWith (c # cs) tok")
      case True
      then have "replaceLiteral tok tmpl b s =
                 tmpl @ replaceLiteral tok tmpl (b @ tok) (drop (length tok - 1) cs)"
        unfolding s using assms(2) by (simp add: getSubstitution_no_dollar)
      moreover obtain t ts where "tmpl = t # ts"
        using assms(1) by (cases tmpl) auto
      ultimately have "x = t" "t \<in> set tmpl"
        using Cons.prems(2) by auto
      with Cons.prems(1) show ?thesis by auto
    next
      case False
      then have out: "replaceLiteral tok tmpl b s = c # replaceLiteral tok tmpl (b @ [c]) cs"
        unfolding s by auto
      with Cons.prems(2) have cx: "c = x"
        and sw: "startsWith (replaceLiteral tok tmpl (b @ [c]) cs) w"
        by auto
      have "set w \<inter> set tmpl = {}"
        using Cons.prems(1) by auto
      from Cons.IH [OF this sw] cx show ?thesis
        by (simp add: s)
    qed
  qed
qed

lemma replaceLiteral_no_occurrence:
  "tok \<noteq> [] \<Longrightarrow> tmpl \<noteq> [] \<Longrightarrow> CHR ''$'' \<notin> set tmpl \<Longrightarrow> set tok \<inter> set tmpl = {} \<Longrightarrow>
   \<not> occurs tok (replaceLiteral tok tmpl b s)"
proof (induction tok tmpl b s rule: replaceLiteral.induct)
  case (1 tok tmpl preceding)
  then show ?case by simp
next
  case (2 tok tmpl preceding c cs)
  show ?case
  proof (cases "tok \<noteq> [] \<and> startsWith (c # cs) tok")
    case True
    have hd: "hd tok \<notin> set tmpl"
      using "2.prems"(1,4) by (cases tok) auto
    have "replaceLiteral tok tmpl preceding (c # cs) =
          tmpl @ replaceLiteral tok tmpl (preceding @ tok) (drop (length tok - 1) cs)"
      using True "2.prems"(3) by (simp add: getSubstitution_no_dollar)
    then show ?thesis
      using "2.IH"(1) [OF True "2.prems"] "2.prems"(1) hd by (simp add: occurs_skip)
  next
    case False
    then have out: "replaceLiteral tok tmpl preceding (c # cs) =
                    c # replaceLiteral tok tmpl (preceding @ [c]) cs"
      by auto
    have "\<not> startsWith (replaceLiteral tok tmpl preceding (c # cs)) tok"
      using replaceLiteral_startsWith [OF "2.prems"(2,3,4)] False "2.prems"(1) by blast
    then show ?thesis
      using "2.IH"(2) [OF False "2.prems"] unfolding out by simp
  qed
qed


lemma numReplacement_chars:
  "numReplacement i p \<noteq> [] \<and> isNumberStart (hd (numReplacement i p)) \<and>
   (\<forall>c\<in>set (numReplacement i p). isNumberChar c)"
proof -
  have z: "isNumberChar (CHR ''0'')" "isNumberStart (CHR ''0'')"
    by (simp_all add: isDigit_number isDigit_0)
  have pad: "padStart k (CHR ''0'') (toString i) \<noteq> [] \<and>
             isNumberStart (hd (padStart k (CHR ''0'') (toString i))) \<and>
             (\<forall>c\<in>set (padStart k (CHR ''0'') (toString i)). isNumberChar c)" for k
  proof (cases "k - length (toString i)")
    case 0
    then show ?thesis
      using toString_chars [of i] by (simp add: padStart_def)
  next
    case (Suc m)
    then show ?thesis
      using toString_chars [of i] z by (auto simp: padStart_def)
  qed
  show ?thesis
    using toString_chars [of i] pad
    by (simp add: numReplacement_def Let_def split: option.splits)
qed

lemma matchNum_suffix: "matchNum s = Some (p, r) \<Longrightarrow> \<exists>m. s = m @ r"
proof -
  assume m: "matchNum s = Some (p, r)"
  have d: "\<exists>k. dropWhile isDigit xs = drop k xs" for xs :: string
    using dropWhile_eq_drop [of isDigit xs] by blast
  obtain k where k: "dropWhile isDigit (drop 5 s) = drop k (drop 5 s)"
    using d by blast
  from m have "r = drop 5 s \<or> r = drop 1 (dropWhile isDigit (drop 5 s))"
    by (auto simp: matchNum_def Let_def split: if_splits)
  then have "\<exists>j. r = drop j s"
    unfolding k by (metis drop_drop)
  then obtain j where "r = drop j s" ..
  then have "s = take j s @ r" by simp
  then show ?thesis ..
qed

lemma replaceNum_startsWith:
  "\<forall>c\<in>set w. \<not> isNumberStart c \<Longrightarrow> startsWith (replaceNum i s) w \<Longrightarrow> startsWith s w"
proof (induction w arbitrary: s)
  case Nil
  show ?case by simp
next
  case (Cons x w)
  show ?case
  proof (cases s)
    case Nil
    with Cons.prems show ?thesis by simp
  next
    case s: (Cons c cs)
    show ?thesis
    proof (cases "matchNum (c # cs)")
      case None
      then have out: "replaceNum i s = c # replaceNum i cs"
        by (simp add: s)
      with Cons.prems(2) have cx: "c = x" and sw: "startsWith (replaceNum i cs) w"
        by auto
      have "\<forall>c\<in>set w. \<not> isNumberStart c"
        using Cons.prems(1) by simp
      from Cons.IH [OF this sw] cx show ?thesis
        by (simp add: s)
    next
      case (Some pr)
      obtain p r where pr: "pr = (p, r)" by (cases pr)
      have out: "replaceNum i s = numReplacement i p @ replaceNum i r"
        using Some by (simp add: s pr)
      obtain t ts where t: "numReplacement i p = t # ts"
        using numReplacement_chars [of i p] by (cases "numReplacement i p") auto
      then have "isNumberStart t"
        using numReplacement_chars [of i p] by simp
      moreover have "x = t"
        using Cons.prems(2) unfolding out t by simp
      ultimately show ?thesis
        using Cons.prems(1) by simp
    qed
  qed
qed

lemma replaceNum_occurs:
  "w \<noteq> [] \<Longrightarrow> \<forall>c\<in>set w. \<not> isNumberStart c \<Longrightarrow> \<not> isNumberChar (hd w) \<Longrightarrow>
   occurs w (replaceNum i s) \<Longrightarrow> occurs w s"
proof (induction i s rule: replaceNum.induct)
  case (1 index)
  then show ?case by simp
next
  case (2 index c cs)
  show ?case
  proof (cases "matchNum (c # cs)")
    case None
    then have out: "replaceNum index (c # cs) = c # replaceNum index cs"
      by simp
    from "2.prems"(4) have "startsWith (replaceNum index (c # cs)) w \<or> occurs w (replaceNum index cs)"
      unfolding out by simp
    then show ?thesis
    proof
      assume "startsWith (replaceNum index (c # cs)) w"
      then have "startsWith (c # cs) w"
        using "2.prems"(2) replaceNum_startsWith by blast
      then show ?thesis by simp
    next
      assume "occurs w (replaceNum index cs)"
      then have "occurs w cs"
        using "2.IH"(1) [OF None "2.prems"(1,2,3)] by blast
      then show ?thesis by simp
    qed
  next
    case (Some pr)
    obtain p r where pr: "pr = (p, r)" by (cases pr)
    have m: "matchNum (c # cs) = Some (p, r)"
      using Some pr by simp
    have out: "replaceNum index (c # cs) = numReplacement index p @ replaceNum index r"
      using m by simp
    have "hd w \<notin> set (numReplacement index p)"
      using "2.prems"(3) numReplacement_chars [of index p] by blast
    with "2.prems"(1,4) have "occurs w (replaceNum index r)"
      unfolding out by (simp add: occurs_skip)
    then have "occurs w r"
      using "2.IH"(2) [OF Some pr [symmetric] "2.prems"(1,2,3)] by blast
    moreover obtain pre where "c # cs = pre @ r"
      using matchNum_suffix [OF m] by blast
    ultimately show ?thesis
      by (metis occurs_append)
  qed
qed

lemma replaceNum_no_occurrence: "\<not> occurs ''{num}'' (replaceNum i s)"
proof (induction i s rule: replaceNum.induct)
  case (1 index)
  show ?case by simp
next
  case (2 index c cs)
  have nd: "\<forall>c\<in>set ''{num}''. \<not> isNumberStart c"
    by (simp add: isNumberStart_def isDigit_def)
  show ?case
  proof (cases "matchNum (c # cs)")
    case None
    then have out: "replaceNum index (c # cs) = c # replaceNum index cs"
      by simp
    have "\<not> startsWith (replaceNum index (c # cs)) ''{num}''"
    proof
      assume "startsWith (replaceNum index (c # cs)) ''{num}''"
      then have "startsWith (c # cs) ''{num}''"
        using nd replaceNum_startsWith by blast
      then obtain r where "c # cs = ''{num}'' @ r"
        unfolding startsWith_def by (metis append_take_drop_id)
      then have "matchNum (c # cs) = Some (None, r)"
        by (simp only: matchNum_plain)
      with None show False by simp
    qed
    then show ?thesis
      using "2.IH"(1) [OF None] unfolding out by simp
  next
    case (Some pr)
    obtain p r where pr: "pr = (p, r)" by (cases pr)
    have m: "matchNum (c # cs) = Some (p, r)"
      using Some pr by simp
    have out: "replaceNum index (c # cs) = numReplacement index p @ replaceNum index r"
      using m by simp
    have "hd ''{num}'' \<notin> set (numReplacement index p)"
      using numReplacement_chars [of index p] isNumberChar_not_brace by auto
    then show ?thesis
      using "2.IH"(2) [OF Some pr [symmetric]] unfolding out by (simp add: occurs_skip)
  qed
qed


lemma replaceLiteral_whole_name:
  "CHR ''$'' \<notin> set n \<Longrightarrow> replaceLiteral ''{name}'' n b ''{name}'' = n"
  by (simp add: getSubstitution_no_dollar)

lemma date_pass_no_occurrence:
  assumes "toISOString t = Inr isoStr"
  shows "\<not> occurs ''{date}'' (replaceNum i (replaceLiteral ''{date}'' (split_T_0 isoStr) b s))"
proof
  let ?d = "split_T_0 isoStr"
  assume o: "occurs ''{date}'' (replaceNum i (replaceLiteral ''{date}'' ?d b s))"
  have nd: "\<forall>c\<in>set ''{date}''. \<not> isDateChar c"
    by (simp add: isDateChar_def isDigit_def)
  have nn: "\<forall>c\<in>set ''{date}''. \<not> isNumberStart c"
    by (simp add: isNumberStart_def isDigit_def)
  have "occurs ''{date}'' (replaceLiteral ''{date}'' ?d b s)"
    using replaceNum_occurs [OF _ nn _ o] isNumberChar_not_brace by simp
  moreover have dc: "(\<forall>c\<in>set ?d. isDateChar c) \<and> ?d \<noteq> []"
    using assms by (rule toISOString_date_chars)
  then have "CHR ''$'' \<notin> set ?d"
    using isDateChar_not(2) by blast
  moreover have "set ''{date}'' \<inter> set ?d = {}"
    using dc nd by blast
  ultimately show False
    using dc replaceLiteral_no_occurrence [of "''{date}''" ?d b s] by simp
qed

text \<open>
  Claim C10. The three substitutions are successive passes over the text, so what the
  \<open>{name}\<close> pass puts in is read by the later passes: the new name is prefix, body,
  suffix, where the body is the number pass applied to the date pass applied to the name
  pass; no \<open>{date}\<close> and no \<open>{num}\<close> is left in the body, wherever it came from; and with
  the pattern \<open>{name}\<close> (and an original name free of \<open>$\<close>) the body is the original
  name with its own \<open>{date}\<close> and \<open>{num}\<close> replaced by the date and the sequence number.
\<close>

theorem injected_tokens_are_expanded:
  assumes "generatePreview files config = Inr plan" and "i < length files"
  shows "\<exists>isoStr body.
           toISOString (lastModified (files ! i)) = Inr isoStr \<and>
           body = replaceNum (counterAt (startNumber config) i)
                    (replaceLiteral ''{date}'' (split_T_0 isoStr) []
                       (replaceLiteral ''{name}'' (originalName (files ! i)) [] (pattern config))) \<and>
           newName (plan ! i) = prefix config @ body @ suffix config \<and>
           \<not> occurs ''{date}'' body \<and> \<not> occurs ''{num}'' body \<and>
           (pattern config = ''{name}'' \<and> CHR ''$'' \<notin> set (originalName (files ! i)) \<longrightarrow>
              body = replaceNum (counterAt (startNumber config) i)
                       (replaceLiteral ''{date}'' (split_T_0 isoStr) [] (originalName (files ! i))))"
proof -
  have n: "applyPattern (files ! i) config (counterAt (startNumber config) i) = Inr (newName (plan ! i))"
    using assms by (rule plan_names)
  then obtain isoStr where v: "toISOString (lastModified (files ! i)) = Inr isoStr"
    using applyPattern_valid by blast
  let ?body = "replaceNum (counterAt (startNumber config) i)
                 (replaceLiteral ''{date}'' (split_T_0 isoStr) []
                    (replaceLiteral ''{name}'' (originalName (files ! i)) [] (pattern config)))"
  have "newName (plan ! i) = prefix config @ ?body @ suffix config"
    using n by (simp add: applyPattern_eq [OF v])
  moreover have "\<not> occurs ''{date}'' ?body"
    using v by (rule date_pass_no_occurrence)
  moreover have "\<not> occurs ''{num}'' ?body"
    by (rule replaceNum_no_occurrence)
  moreover have "pattern config = ''{name}'' \<and> CHR ''$'' \<notin> set (originalName (files ! i)) \<longrightarrow>
     ?body = replaceNum (counterAt (startNumber config) i)
               (replaceLiteral ''{date}'' (split_T_0 isoStr) [] (originalName (files ! i)))"
  proof (intro impI, elim conjE)
    assume p: "pattern config = ''{name}''"
      and d: "CHR ''$'' \<notin> set (originalName (files ! i))"
    show "?body = replaceNum (counterAt (startNumber config) i)
               (replaceLiteral ''{date}'' (split_T_0 isoStr) [] (originalName (files ! i)))"
      unfolding p replaceLiteral_whole_name [OF d] by (rule refl)
  qed
  ultimately show ?thesis
    using v by blast
qed

lemma split_T_0_example: "split_T_0 ''1970-01-01T00:00:00.000Z'' = ''1970-01-01''"
  by (simp add: split_T_0_def)

lemma example_plan_injected_eq:
  "generatePreview [example_file ''b{date}{num}'' ''.jpg''] (example_config ''{name}'')
     = Inr [mkProcessed (example_file ''b{date}{num}'' ''.jpg'') ''b1970-01-011'' PENDING None]"
proof -
  have n1: "replaceLiteral ''{name}'' ''b{date}{num}'' [] ''{name}'' = ''b{date}{num}''"
    by (simp add: replaceLiteral_whole_name)
  have n2: "replaceLiteral ''{date}'' ''1970-01-01'' [] ''b{date}{num}'' = ''b1970-01-01{num}''"
    by simp
  have n3: "replaceNum (Finite 1) ''b1970-01-01{num}'' = ''b1970-01-011''"
    using replaceNum_append_skip [of "''b1970-01-01''" "Finite 1" "''{num}''"]
      replaceNum_plain [of "Finite 1" "[]"]
    by (simp add: toString_examples)
  have ap: "applyPattern (example_file ''b{date}{num}'' ''.jpg'') (example_config ''{name}'') (Finite 1)
              = Inr ''b1970-01-011''"
  proof -
    have "applyPattern (example_file ''b{date}{num}'' ''.jpg'') (example_config ''{name}'') (Finite 1) =
          Inr (prefix (example_config ''{name}'')
               @ replaceNum (Finite 1) (replaceLiteral ''{date}'' (split_T_0 ''1970-01-01T00:00:00.000Z'') []
                   (replaceLiteral ''{name}'' (originalName (example_file ''b{date}{num}'' ''.jpg'')) []
                      (pattern (example_config ''{name}''))))
               @ suffix (example_config ''{name}''))"
      by (rule applyPattern_eq) (simp add: example_fields toISOString_0)
    then show ?thesis
      unfolding example_fields split_T_0_example n1 n2 n3 by simp
  qed
  have lc: "toLowerCase ''b1970-01-011.jpg'' = ''b1970-01-011.jpg''"
    by (simp add: toLowerCase_def lower_char_def char_of_def bit_Suc_0_iff)
  show ?thesis
    unfolding generatePreview_def generatePreview_loop.simps example_fields ap Let_def
    by (simp add: example_fields lc)
qed

theorem injected_tokens_are_expanded_witness:
  "generatePreview [example_file ''b{date}{num}'' ''.jpg''] (example_config ''{name}'')
     = Inr [mkProcessed (example_file ''b{date}{num}'' ''.jpg'') ''b1970-01-011'' PENDING None] \<and>
   (0::nat) < length [example_file ''b{date}{num}'' ''.jpg''] \<and>
   newName (mkProcessed (example_file ''b{date}{num}'' ''.jpg'') ''b1970-01-011'' PENDING None)
     = ''b1970-01-011'' \<and>
   \<not> occurs ''{date}'' ''b1970-01-011'' \<and> \<not> occurs ''{num}'' ''b1970-01-011''"
proof -
  have i0: "(0::nat) < length [example_file ''b{date}{num}'' ''.jpg'']"
    by simp
  from injected_tokens_are_expanded [OF example_plan_injected_eq i0]
  obtain body where
    "newName (mkProcessed (example_file ''b{date}{num}'' ''.jpg'') ''b1970-01-011'' PENDING None)
       = prefix (example_config ''{name}'') @ body @ suffix (example_config ''{name}'')"
    and "\<not> occurs ''{date}'' body" and "\<not> occurs ''{num}'' body"
    by auto
  then have "\<not> occurs ''{date}'' ''b1970-01-011'' \<and> \<not> occurs ''{num}'' ''b1970-01-011''"
    by (simp add: example_fields mk_sel)
  with example_plan_injected_eq i0 show ?thesis
    by (simp add: mk_sel)
qed

subsection \<open>The number token in any context\<close>

lemma startsWith_iff: "startsWith s w \<longleftrightarrow> (\<exists>r. s = w @ r)"
proof
  assume "startsWith s w"
  then have "s = w @ drop (length w) s"
    unfolding startsWith_def by (metis append_take_drop_id)
  then show "\<exists>r. s = w @ r" ..
next
  assume "\<exists>r. s = w @ r"
  then show "startsWith s w" by (auto simp: startsWith_def)
qed

lemma matchNum_Some_iff:
  "matchNum s = Some (p, r) \<longleftrightarrow>
     (p = None \<and> s = ''{num}'' @ r) \<or>
     (\<exists>ds. p = Some ds \<and> ds \<noteq> [] \<and> (\<forall>d\<in>set ds. isDigit d) \<and> s = ''{num:'' @ ds @ ''}'' @ r)"
proof
  assume m: "matchNum s = Some (p, r)"
  then have "startsWith s ''{num''"
    by (simp add: matchNum_def split: if_splits)
  then obtain u where s: "s = ''{num'' @ u"
    unfolding startsWith_iff ..
  show "(p = None \<and> s = ''{num}'' @ r) \<or>
     (\<exists>ds. p = Some ds \<and> ds \<noteq> [] \<and> (\<forall>d\<in>set ds. isDigit d) \<and> s = ''{num:'' @ ds @ ''}'' @ r)"
  proof (cases u)
    case Nil
    with m s show ?thesis by (simp add: matchNum_def)
  next
    case (Cons c v)
    show ?thesis
    proof (cases "c = CHR ''}''")
      case True
      with m s Cons show ?thesis by (simp add: matchNum_def)
    next
      case False
      with m s Cons have c: "c = CHR '':''"
        by (simp add: matchNum_def Let_def split: if_splits)
      let ?ds = "takeWhile isDigit v" and ?r = "dropWhile isDigit v"
      from m s Cons c have ne: "?ds \<noteq> []" and sw: "startsWith ?r ''}''"
        and p: "p = Some ?ds" and r: "r = drop 1 ?r"
        by (auto simp: matchNum_def Let_def split: if_splits)
      from sw obtain q where q: "?r = ''}'' @ q"
        unfolding startsWith_iff ..
      have "v = ?ds @ ?r" by simp
      then have "v = ?ds @ ''}'' @ r"
        using q r by simp
      moreover have "\<forall>d\<in>set ?ds. isDigit d"
        by (meson set_takeWhileD)
      ultimately show ?thesis
        using s Cons c ne p by auto
    qed
  qed
next
  assume "(p = None \<and> s = ''{num}'' @ r) \<or>
     (\<exists>ds. p = Some ds \<and> ds \<noteq> [] \<and> (\<forall>d\<in>set ds. isDigit d) \<and> s = ''{num:'' @ ds @ ''}'' @ r)"
  then show "matchNum s = Some (p, r)"
    using matchNum_plain [of r] matchNum_padded [of _ r] by auto
qed

lemma matchNum_append:
  "matchNum s = Some (p, r) \<Longrightarrow> matchNum (s @ x) = Some (p, r @ x)"
  unfolding matchNum_Some_iff by auto

lemma append_brace_prefix:
  assumes "cs @ CHR ''{'' # x = w @ r" and "CHR ''{'' \<notin> set w"
  shows "\<exists>r'. cs = w @ r'"
proof (cases "length w \<le> length cs")
  case True
  then have "take (length w) (cs @ CHR ''{'' # x) = take (length w) cs"
    by simp
  moreover have "take (length w) (cs @ CHR ''{'' # x) = w"
    unfolding assms(1) by simp
  ultimately have "take (length w) cs = w"
    by simp
  then have "cs = w @ drop (length w) cs"
    by (metis append_take_drop_id)
  then show ?thesis ..
next
  case False
  then have lt: "length cs < length w" by simp
  have "(cs @ CHR ''{'' # x) ! length cs = CHR ''{''"
    by simp
  then have "(w @ r) ! length cs = CHR ''{''"
    unfolding assms(1) .
  then have "w ! length cs = CHR ''{''"
    using lt by (simp add: nth_append)
  moreover have "w ! length cs \<in> set w"
    using lt by (rule nth_mem)
  ultimately show ?thesis
    using assms(2) by simp
qed

lemma matchNum_None_append:
  assumes "matchNum (c # cs) = None"
  shows "matchNum (c # cs @ CHR ''{'' # x) = None"
proof (rule ccontr)
  assume "matchNum (c # cs @ CHR ''{'' # x) \<noteq> None"
  then obtain p r where m: "matchNum (c # cs @ CHR ''{'' # x) = Some (p, r)"
    by auto
  from m consider
    (plain) "p = None" "c # cs @ CHR ''{'' # x = ''{num}'' @ r"
  | (padded) ds where "p = Some ds" "ds \<noteq> []" "\<forall>d\<in>set ds. isDigit d"
      "c # cs @ CHR ''{'' # x = ''{num:'' @ ds @ ''}'' @ r"
    unfolding matchNum_Some_iff by auto
  then show False
  proof cases
    case plain
    then have c: "c = CHR ''{''" and u: "cs @ CHR ''{'' # x = ''num}'' @ r"
      by simp_all
    have "CHR ''{'' \<notin> set ''num}''" by simp
    with u obtain r' where "cs = ''num}'' @ r'"
      using append_brace_prefix by blast
    then have "c # cs = ''{num}'' @ r'"
      using c by simp
    then have "matchNum (c # cs) = Some (None, r')"
      by (simp only: matchNum_plain)
    with assms show False by simp
  next
    case padded
    then have c: "c = CHR ''{''" and u: "cs @ CHR ''{'' # x = (''num:'' @ ds @ ''}'') @ r"
      by simp_all
    have "CHR ''{'' \<notin> set ds"
      using padded(3) isDigit_not_brace by blast
    then have "CHR ''{'' \<notin> set (''num:'' @ ds @ ''}'')"
      by simp
    with u obtain r' where "cs = (''num:'' @ ds @ ''}'') @ r'"
      using append_brace_prefix by blast
    then have "c # cs = ''{num:'' @ ds @ ''}'' @ r'"
      using c by simp
    then have "matchNum (c # cs) = Some (Some ds, r')"
      using matchNum_padded [OF padded(2,3), of r'] by simp
    with assms show False by simp
  qed
qed

lemma replaceNum_append_brace:
  "replaceNum n (a @ CHR ''{'' # x) = replaceNum n a @ replaceNum n (CHR ''{'' # x)"
proof (induction n a rule: replaceNum.induct)
  case (1 index)
  show ?case by simp
next
  case (2 index c cs)
  show ?case
  proof (cases "matchNum (c # cs)")
    case None
    then have "matchNum (c # cs @ CHR ''{'' # x) = None"
      by (rule matchNum_None_append)
    with None "2.IH"(1) [OF None] show ?thesis
      by simp
  next
    case (Some pr)
    obtain p r where pr: "pr = (p, r)" by (cases pr)
    have "matchNum ((c # cs) @ CHR ''{'' # x) = Some (p, r @ CHR ''{'' # x)"
      using Some pr by (simp only: matchNum_append)
    with Some pr "2.IH"(2) [OF Some pr [symmetric]] show ?thesis
      by simp
  qed
qed

lemma replaceNum_token_anywhere:
  "replaceNum n (a @ ''{num}'' @ b) = replaceNum n a @ toString n @ replaceNum n b"
  "ds \<noteq> [] \<Longrightarrow> \<forall>d\<in>set ds. isDigit d \<Longrightarrow>
   replaceNum n (a @ ''{num:'' @ ds @ ''}'' @ b) =
     replaceNum n a @ padStart (length ds) (CHR ''0'') (toString n) @ replaceNum n b"
proof -
  have "replaceNum n (a @ ''{num}'' @ b) = replaceNum n a @ replaceNum n (''{num}'' @ b)"
    using replaceNum_append_brace [of n a "''num}'' @ b"] by simp
  then show "replaceNum n (a @ ''{num}'' @ b) = replaceNum n a @ toString n @ replaceNum n b"
    by (simp only: replaceNum_plain)
next
  assume ds: "ds \<noteq> []" "\<forall>d\<in>set ds. isDigit d"
  have "replaceNum n (a @ ''{num:'' @ ds @ ''}'' @ b) =
        replaceNum n a @ replaceNum n (''{num:'' @ ds @ ''}'' @ b)"
    using replaceNum_append_brace [of n a "''num:'' @ ds @ ''}'' @ b"] by simp
  then show "replaceNum n (a @ ''{num:'' @ ds @ ''}'' @ b) =
     replaceNum n a @ padStart (length ds) (CHR ''0'') (toString n) @ replaceNum n b"
    by (simp only: replaceNum_padded [OF ds])
qed


lemma numToken_shape:
  assumes "\<forall>d\<in>set ds. isDigit d"
  obtains u where "numToken ds = ''{num'' @ u" and "CHR ''{'' \<notin> set u"
proof (cases "ds = []")
  case True
  then have "numToken ds = ''{num'' @ ''}''" "CHR ''{'' \<notin> set ''}''"
    by (simp_all add: numToken_def)
  then show ?thesis by (rule that)
next
  case False
  have "CHR ''{'' \<notin> set ds"
    using assms isDigit_not_brace by blast
  then have "numToken ds = ''{num'' @ ('':'' @ ds @ ''}'')" "CHR ''{'' \<notin> set ('':'' @ ds @ ''}'')"
    using False by (simp_all add: numToken_def)
  then show ?thesis by (rule that)
qed

lemma replaceLiteral_token_first:
  assumes "tok = ''{name}'' \<or> tok = ''{date}''" and "CHR ''{'' \<notin> set u"
  shows "replaceLiteral tok tmpl p (''{num'' @ u @ b) =
         ''{num'' @ u @ replaceLiteral tok tmpl (p @ ''{num'' @ u) b"
proof -
  have hd: "hd tok \<notin> set (''num'' @ u)"
    using assms by auto
  have "replaceLiteral tok tmpl p (''{num'' @ u @ b) =
        CHR ''{'' # replaceLiteral tok tmpl (p @ ''{'') ((''num'' @ u) @ b)"
    using assms(1) by auto
  also have "\<dots> = CHR ''{'' # (''num'' @ u) @ replaceLiteral tok tmpl ((p @ ''{'') @ ''num'' @ u) b"
    by (subst replaceLiteral_append_skip [OF hd]) (rule refl)
  finally show ?thesis by simp
qed

lemma replaceLiteral_keeps_token:
  assumes "tok = ''{name}'' \<or> tok = ''{date}''" and "CHR ''{'' \<notin> set u"
  shows "\<exists>X Y. replaceLiteral tok tmpl p (a @ ''{num'' @ u @ b) = X @ ''{num'' @ u @ Y"
proof (induction a arbitrary: p rule: length_induct)
  case (1 a)
  show ?case
  proof (cases a)
    case Nil
    then show ?thesis
      using replaceLiteral_token_first [OF assms, of tmpl p b] by auto
  next
    case (Cons c a')
    let ?rest = "''{num'' @ u @ b"
    have tok: "tok \<noteq> []" "length tok = 6" "CHR ''{'' \<notin> set (tl tok)"
      using assms(1) by auto
    show ?thesis
    proof (cases "startsWith (c # a' @ ?rest) tok")
      case False
      then have "replaceLiteral tok tmpl p (a @ ?rest) =
                 c # replaceLiteral tok tmpl (p @ [c]) (a' @ ?rest)"
        by (simp add: Cons)
      moreover have "\<exists>X Y. replaceLiteral tok tmpl (p @ [c]) (a' @ ?rest) = X @ ''{num'' @ u @ Y"
        using "1.IH" Cons by simp
      ultimately show ?thesis
        by (metis append_Cons)
    next
      case True
      then obtain r where r: "c # a' @ ?rest = tok @ r"
        unfolding startsWith_iff ..
      have inside: "length tok \<le> length a"
      proof (rule ccontr)
        assume "\<not> length tok \<le> length a"
        then have lt: "length a < length tok" by simp
        have e: "a @ ?rest = tok @ r"
          using r Cons by simp
        have "(a @ ?rest) ! length a = CHR ''{''"
          by (simp add: nth_append)
        then have "(tok @ r) ! length a = CHR ''{''"
          by (simp only: e)
        then have "tok ! length a = CHR ''{''"
          using lt by (simp add: nth_append)
        moreover have "0 < length a" using Cons by simp
        ultimately have "tl tok ! (length a - 1) = CHR ''{''"
          using tok(1) by (cases tok) (auto simp: nth_Cons')
        moreover have "length a - 1 < length (tl tok)"
          using lt tok(2) \<open>0 < length a\<close> by simp
        ultimately have "CHR ''{'' \<in> set (tl tok)"
          by (metis nth_mem)
        with tok(3) show False by simp
      qed
      then have d: "drop (length tok) (a @ ?rest) = drop (length tok) a @ ?rest"
        by simp
      have dd: "drop (length tok - 1) (a' @ ?rest) = drop (length tok) (a @ ?rest)"
        unfolding Cons tok(2) by simp
      have "replaceLiteral tok tmpl p (c # (a' @ ?rest)) =
            getSubstitution tok p (drop (length tok) (c # (a' @ ?rest))) tmpl
            @ replaceLiteral tok tmpl (p @ tok) (drop (length tok - 1) (a' @ ?rest))"
        using True tok(1) by (subst replaceLiteral.simps(2)) (simp only: simp_thms if_True)
      then have "replaceLiteral tok tmpl p (a @ ?rest) =
            getSubstitution tok p (drop (length tok) (a @ ?rest)) tmpl
            @ replaceLiteral tok tmpl (p @ tok) (drop (length tok) (a @ ?rest))"
        unfolding dd Cons by simp
      moreover have "length (drop (length tok) a) < length a"
        using inside tok(2) by simp
      then have "\<exists>X Y. replaceLiteral tok tmpl (p @ tok) (drop (length tok) a @ ?rest)
                   = X @ ''{num'' @ u @ Y"
        using "1.IH" by blast
      ultimately show ?thesis
        unfolding d by (metis append.assoc)
    qed
  qed
qed

lemma name2_keeps_token:
  assumes "\<forall>d\<in>set ds. isDigit d"
  shows "\<exists>X Y. replaceLiteral ''{date}'' d [] (replaceLiteral ''{name}'' n [] (a @ numToken ds @ b))
               = X @ numToken ds @ Y"
proof -
  from assms obtain u where t: "numToken ds = ''{num'' @ u" and u: "CHR ''{'' \<notin> set u"
    by (rule numToken_shape)
  obtain X1 Y1 where "replaceLiteral ''{name}'' n [] (a @ ''{num'' @ u @ b) = X1 @ ''{num'' @ u @ Y1"
    using replaceLiteral_keeps_token [of "''{name}''" u n "[]" a b] u by blast
  moreover obtain X2 Y2 where
    "replaceLiteral ''{date}'' d [] (X1 @ ''{num'' @ u @ Y1) = X2 @ ''{num'' @ u @ Y2"
    using replaceLiteral_keeps_token [of "''{date}''" u d "[]" X1 Y1] u by blast
  ultimately show ?thesis
    unfolding t by auto
qed

lemma replaceNum_numToken:
  assumes "\<forall>d\<in>set ds. isDigit d"
  shows "replaceNum n (a @ numToken ds @ b) =
         replaceNum n a @ padStart (length ds) (CHR ''0'') (toString n) @ replaceNum n b"
proof (cases "ds = []")
  case True
  then have "numToken ds = ''{num}''" "padStart (length ds) (CHR ''0'') (toString n) = toString n"
    by (simp_all add: numToken_def padStart_def)
  then show ?thesis
    using replaceNum_token_anywhere(1) [of n a b] by simp
next
  case False
  then have "numToken ds = ''{num:'' @ ds @ ''}''"
    by (simp add: numToken_def)
  then show ?thesis
    using replaceNum_token_anywhere(2) [OF False assms, of n a b] by simp
qed

text \<open>
  Claim C8 (as amended). With \<open>ds\<close> the digits written in the token (none for the bare
  \<open>{num}\<close>), the token is replaced by the string that \<open>toString\<close> gives for the counter,
  padded on the left with zeros to \<open>length ds\<close> characters, so without padding for the
  bare form: wherever the token stands in the text that reaches the number pass; wherever
  it stands in the pattern (\<open>X\<close> and \<open>Y\<close> being what the name and date passes make of
  the text before and after it); and, when the rest of the pattern is free of braces, with
  that rest unchanged around it. When \<open>startNumber\<close> is an integer not below \<open>-2^53\<close>
  and \<open>startNumber + i\<close> is not above \<open>2^53\<close>, that string is the decimal string of
  \<open>startNumber + i\<close>; it is not for every number, since \<open>toString\<close> gives the shortest
  digits that identify a double and uses exponent notation from \<open>10^21\<close> on.
\<close>

theorem num_token_rendering:
  assumes "generatePreview files config = Inr plan" and "i < length files"
    and "\<forall>d\<in>set ds. isDigit d"
  shows "(\<forall>a b. replaceNum (counterAt (startNumber config) i) (a @ numToken ds @ b) =
            replaceNum (counterAt (startNumber config) i) a
            @ replicate (length ds - length (toString (counterAt (startNumber config) i))) (CHR ''0'')
            @ toString (counterAt (startNumber config) i)
            @ replaceNum (counterAt (startNumber config) i) b) \<and>
         (pattern config = pre @ numToken ds @ post \<longrightarrow>
            (\<exists>X Y. newName (plan ! i) =
               prefix config @ replaceNum (counterAt (startNumber config) i) X
               @ replicate (length ds - length (toString (counterAt (startNumber config) i))) (CHR ''0'')
               @ toString (counterAt (startNumber config) i)
               @ replaceNum (counterAt (startNumber config) i) Y @ suffix config)) \<and>
         (pattern config = pre @ numToken ds @ post \<and>
          CHR ''{'' \<notin> set pre \<and> CHR ''{'' \<notin> set post \<longrightarrow>
            newName (plan ! i) =
              prefix config @ pre
              @ replicate (length ds - length (toString (counterAt (startNumber config) i))) (CHR ''0'')
              @ toString (counterAt (startNumber config) i) @ post @ suffix config) \<and>
         (\<forall>s. startNumber config = Finite s \<and> - 9007199254740992 \<le> s \<and>
              s + int i \<le> 9007199254740992 \<longrightarrow>
            toString (counterAt (startNumber config) i) = decimalString (s + int i))"
proof (intro conjI allI impI)
  let ?n = "counterAt (startNumber config) i"
  let ?r = "replicate (length ds - length (toString ?n)) (CHR ''0'') @ toString ?n"
  have r: "padStart (length ds) (CHR ''0'') (toString ?n) = ?r"
    by (simp add: padStart_def)
  have n: "applyPattern (files ! i) config ?n = Inr (newName (plan ! i))"
    using assms(1,2) by (rule plan_names)
  then obtain isoStr where v: "toISOString (lastModified (files ! i)) = Inr isoStr"
    using applyPattern_valid by blast
  have nn: "newName (plan ! i) =
      prefix config @ replaceNum ?n (replaceLiteral ''{date}'' (split_T_0 isoStr) []
        (replaceLiteral ''{name}'' (originalName (files ! i)) [] (pattern config))) @ suffix config"
    using n by (simp add: applyPattern_eq [OF v])
  show "replaceNum ?n (a @ numToken ds @ b) =
        replaceNum ?n a @ replicate (length ds - length (toString ?n)) (CHR ''0'')
        @ toString ?n @ replaceNum ?n b" for a b
    using replaceNum_numToken [OF assms(3), of ?n a b] r by simp
  {
    assume p: "pattern config = pre @ numToken ds @ post"
    obtain X Y where "replaceLiteral ''{date}'' (split_T_0 isoStr) []
        (replaceLiteral ''{name}'' (originalName (files ! i)) [] (pattern config)) = X @ numToken ds @ Y"
      unfolding p using name2_keeps_token [OF assms(3)] by blast
    then have "newName (plan ! i) =
        prefix config @ replaceNum ?n X @ ?r @ replaceNum ?n Y @ suffix config"
      using nn replaceNum_numToken [OF assms(3), of ?n X Y] r by simp
    then show "\<exists>X Y. newName (plan ! i) =
               prefix config @ replaceNum ?n X
               @ replicate (length ds - length (toString ?n)) (CHR ''0'')
               @ toString ?n @ replaceNum ?n Y @ suffix config"
      by auto
  }
  {
    assume a: "pattern config = pre @ numToken ds @ post \<and>
          CHR ''{'' \<notin> set pre \<and> CHR ''{'' \<notin> set post"
    show "newName (plan ! i) =
              prefix config @ pre
              @ replicate (length ds - length (toString ?n)) (CHR ''0'')
              @ toString ?n @ post @ suffix config"
    proof (cases "ds = []")
      case True
      with a have "pattern config = pre @ ''{num}'' @ post"
        by (simp add: numToken_def)
      from applyPattern_plain_token [OF v this] a n True show ?thesis
        by simp
    next
      case False
      with a have "pattern config = pre @ ''{num:'' @ ds @ ''}'' @ post"
        by (simp add: numToken_def)
      from applyPattern_padded_token [OF v this _ _ False assms(3)] a n show ?thesis
        by (simp add: padStart_def)
    qed
  }
  {
    fix s
    assume s: "startNumber config = Finite s \<and> - 9007199254740992 \<le> s \<and>
               s + int i \<le> 9007199254740992"
    then have "?n = Finite (s + int i)"
      by (simp add: counterAt_safe)
    moreover have "toString (Finite (s + int i)) = decimalString (s + int i)"
      using s by (intro toString_safe) simp_all
    ultimately show "toString ?n = decimalString (s + int i)"
      by simp
  }
qed

theorem num_token_rendering_witness:
  "generatePreview [example_file ''a'' ''.jpg'', example_file ''b'' ''.JPG'']
     (example_config ''img_{num:003}'')
     = Inr [mkProcessed (example_file ''a'' ''.jpg'') ''img_001'' PENDING None,
            mkProcessed (example_file ''b'' ''.JPG'') ''img_002'' PENDING None] \<and>
   (1::nat) < length [example_file ''a'' ''.jpg'', example_file ''b'' ''.JPG''] \<and>
   isDigit (CHR ''0'') \<and> isDigit (CHR ''3'') \<and>
   pattern (example_config ''img_{num:003}'') = ''img_'' @ numToken ''003'' @ [] \<and>
   CHR ''{'' \<notin> set ''img_'' \<and> CHR ''{'' \<notin> set [] \<and>
   startNumber (example_config ''img_{num:003}'') = Finite 1 \<and>
   - 9007199254740992 \<le> (1::int) \<and> 1 + int 1 \<le> 9007199254740992 \<and>
   toString (counterAt (Finite 1) 1) = decimalString 2 \<and>
   newName (mkProcessed (example_file ''b'' ''.JPG'') ''img_002'' PENDING None) =
     ''img_'' @ replicate (3 - length (decimalString 2)) (CHR ''0'') @ decimalString 2"
proof -
  have i1: "(1::nat) < length [example_file ''a'' ''.jpg'', example_file ''b'' ''.JPG'']"
    by simp
  have nb: "CHR ''{'' \<notin> set ''img_''" "CHR ''{'' \<notin> set []"
    by simp_all
  have dg: "isDigit (CHR ''0'')" "isDigit (CHR ''3'')"
    by (simp_all add: isDigit_def)
  then have dgs: "\<forall>d\<in>set ''003''. isDigit d"
    by simp
  have p: "pattern (example_config ''img_{num:003}'') = ''img_'' @ numToken ''003'' @ []"
    by (simp add: example_fields numToken_def)
  note t = num_token_rendering [OF example_plan_padded_eq i1 dgs, of "''img_''" "[]"]
  from t have safe: "toString (counterAt (Finite 1) 1) = decimalString 2"
    by (simp add: example_fields counterAt_example)
  from t p nb
  have "newName (mkProcessed (example_file ''b'' ''.JPG'') ''img_002'' PENDING None) =
     ''img_'' @ replicate (3 - length (toString (counterAt (Finite 1) 1))) (CHR ''0'')
     @ toString (counterAt (Finite 1) 1)"
    by (simp add: example_fields)
  then have "newName (mkProcessed (example_file ''b'' ''.JPG'') ''img_002'' PENDING None) =
     ''img_'' @ replicate (3 - length (decimalString 2)) (CHR ''0'') @ decimalString 2"
    unfolding safe .
  with example_plan_padded_eq i1 nb dg p safe show ?thesis
    by (simp add: example_fields)
qed

text \<open>
  The number \<open>10^21\<close> is rendered in exponent notation, not as a decimal string.
\<close>

theorem num_token_exponent_counterexample:
  "generatePreview [example_file ''a'' ''.jpg'']
     ((example_config ''{num}'') \<lparr>startNumber := Finite 1000000000000000000000\<rparr>)
     = Inr [mkProcessed (example_file ''a'' ''.jpg'') ''1e+21'' PENDING None] \<and>
   decimalString (1000000000000000000000 + 0) = ''1000000000000000000000''"
proof -
  let ?c = "(example_config ''{num}'') \<lparr>startNumber := Finite 1000000000000000000000\<rparr>"
  have ap: "applyPattern (example_file n e) ?c k = Inr (toString k)" for n e k
    using applyPattern_plain_token [of "example_file n e" _ ?c "[]" "[]" k]
    by (simp add: example_fields toISOString_0)
  have lc: "toLowerCase ''1e+21.jpg'' = ''1e+21.jpg''"
    by (simp add: toLowerCase_def lower_char_def char_of_def bit_Suc_0_iff)
  have d: "decimalString (1000000000000000000000 + 0) = ''1000000000000000000000''"
    by (simp add: decimalString_def nat_digits.simps digit_char_def)
  have "generatePreview [example_file ''a'' ''.jpg''] ?c
     = Inr [mkProcessed (example_file ''a'' ''.jpg'') ''1e+21'' PENDING None]"
    unfolding generatePreview_def generatePreview_loop.simps ap Let_def
    by (simp add: example_fields toString_1e21 lc)
  with d show ?thesis by simp
qed

section \<open>Properties of the Executor\<close>

lemma perform_trace:
  "perform env op eff st = (r, st') \<Longrightarrow> trace st' = trace st @ [(op, \<not> isl r)]"
  by (auto simp: perform_def record_op_def split: option.splits sum.splits)

lemma perform_entries_Inl:
  "perform env op eff st = (Inl e, st') \<Longrightarrow> entries st' = entries st"
  by (auto simp: perform_def record_op_def split: option.splits sum.splits)

lemmas primitive_defs = getFile_def move_def getFileHandle_def createWritable_def writeData_def
  closeWritable_def removeEntry_def shouldResize_def resizeImage_def

lemma readContent_trace:
  assumes "readContent env h config st = (r, st')"
  shows "\<exists>new. trace st' = trace st @ new \<and> (\<forall>x\<in>set new. \<not> isRemoval x)"
proof (cases "enableResize config")
  case False
  with assms have "getFile env h st = (r, st')"
    by (simp add: readContent_def)
  then have "trace st' = trace st @ [(GetFile (handle_name h), \<not> isl r)]"
    unfolding getFile_def by (rule perform_trace)
  then show ?thesis by (simp add: isRemoval_def)
next
  case True
  obtain r1 st1 where g: "getFile env h st = (r1, st1)"
    by (cases "getFile env h st")
  then have t1: "trace st1 = trace st @ [(GetFile (handle_name h), \<not> isl r1)]"
    unfolding getFile_def by (rule perform_trace)
  show ?thesis
  proof (cases r1)
    case (Inl e)
    with assms True g have "st' = st1" by (simp add: readContent_def)
    with t1 show ?thesis by (simp add: isRemoval_def)
  next
    case (Inr originalFile)
    obtain r2 st2 where s: "shouldResize env originalFile (resizeWidth config) st1 = (r2, st2)"
      by (cases "shouldResize env originalFile (resizeWidth config) st1")
    then have t2: "trace st2 = trace st1 @ [(ShouldResize originalFile (resizeWidth config), \<not> isl r2)]"
      unfolding shouldResize_def by (rule perform_trace)
    show ?thesis
    proof (cases r2)
      case (Inl e)
      with assms True g Inr s have "st' = st2" by (simp add: readContent_def)
      with t1 t2 show ?thesis by (simp add: isRemoval_def)
    next
      case should: (Inr b)
      show ?thesis
      proof (cases b)
        case False
        with assms True g Inr s should have "st' = st2" by (simp add: readContent_def)
        with t1 t2 show ?thesis by (simp add: isRemoval_def)
      next
        case True
        with assms \<open>enableResize config\<close> g Inr s should
        have "resizeImage env originalFile (resizeWidth config) (resizeQuality config) st2 = (r, st')"
          by (simp add: readContent_def)
        then have "trace st' = trace st2 @
            [(ResizeImage originalFile (resizeWidth config) (resizeQuality config), \<not> isl r)]"
          unfolding resizeImage_def by (rule perform_trace)
        with t1 t2 show ?thesis by (simp add: isRemoval_def)
      qed
    qed
  qed
qed

lemma copyAndDelete_trace:
  assumes "copyAndDelete env config t old content st = (r, st')"
  shows "\<exists>new. trace st' = trace st @ new \<and>
           ((\<forall>x\<in>set new. \<not> isRemoval x) \<or>
            (\<not> keepOriginals config \<and> t \<noteq> old \<and>
             new = commitOps t content @ [(RemoveEntry old, \<not> isl r)]))"
proof -
  obtain r1 st1 where a1: "getFileHandle env t st = (r1, st1)"
    by (cases "getFileHandle env t st")
  then have t1: "trace st1 = trace st @ [(GetFileHandle t, \<not> isl r1)]"
    unfolding getFileHandle_def by (rule perform_trace)
  show ?thesis
  proof (cases r1)
    case (Inl e)
    with assms a1 have "st' = st1" by (simp add: copyAndDelete_def)
    with t1 show ?thesis by (simp add: isRemoval_def)
  next
    case h: (Inr newFileHandle)
    have nh: "newFileHandle = t"
      using a1 h by (auto simp: getFileHandle_def perform_def split: option.splits)
    obtain r2 st2 where a2: "createWritable env t st1 = (r2, st2)"
      by (cases "createWritable env t st1")
    then have t2: "trace st2 = trace st1 @ [(CreateWritable t, \<not> isl r2)]"
      unfolding createWritable_def by (rule perform_trace)
    show ?thesis
    proof (cases r2)
      case (Inl e)
      with assms a1 h nh a2 have "st' = st2" by (simp add: copyAndDelete_def)
      with t1 t2 show ?thesis by (simp add: isRemoval_def)
    next
      case w: (Inr u2)
      obtain r3 st3 where a3: "writeData env t content st2 = (r3, st3)"
        by (cases "writeData env t content st2")
      then have t3: "trace st3 = trace st2 @ [(Write t content, \<not> isl r3)]"
        unfolding writeData_def by (rule perform_trace)
      show ?thesis
      proof (cases r3)
        case (Inl e)
        with assms a1 h nh a2 w a3 have "st' = st3" by (simp add: copyAndDelete_def)
        with t1 t2 t3 show ?thesis by (simp add: isRemoval_def)
      next
        case wr: (Inr u3)
        obtain r4 st4 where a4: "closeWritable env t content st3 = (r4, st4)"
          by (cases "closeWritable env t content st3")
        then have t4: "trace st4 = trace st3 @ [(Close t, \<not> isl r4)]"
          unfolding closeWritable_def by (rule perform_trace)
        show ?thesis
        proof (cases r4)
          case (Inl e)
          with assms a1 h nh a2 w a3 wr a4 have "st' = st4" by (simp add: copyAndDelete_def)
          with t1 t2 t3 t4 show ?thesis by (simp add: isRemoval_def)
        next
          case cl: (Inr u4)
          show ?thesis
          proof (cases "\<not> keepOriginals config \<and> t \<noteq> old")
            case False
            with assms a1 h nh a2 w a3 wr a4 cl have "st' = st4"
              by (auto simp: copyAndDelete_def)
            with t1 t2 t3 t4 show ?thesis by (simp add: isRemoval_def)
          next
            case True
            with assms a1 h nh a2 w a3 wr a4 cl have "removeEntry env old st4 = (r, st')"
              by (auto simp: copyAndDelete_def)
            then have "trace st' = trace st4 @ [(RemoveEntry old, \<not> isl r)]"
              unfolding removeEntry_def by (rule perform_trace)
            with t1 t2 t3 t4 h w wr cl True show ?thesis
              by (simp add: commitOps_def)
          qed
        qed
      qed
    qed
  qed
qed


lemma move_trace:
  "move env h name st = (r, st') \<Longrightarrow> trace st' = trace st @ [(Move (handle_name h) name, \<not> isl r)]"
  unfolding move_def by (rule perform_trace)

lemma executeRename_trace:
  assumes "executeRename env file dirHandle config st = (r, st')"
  shows "\<exists>reads new.
           trace st' = trace st @ reads @ new \<and> (\<forall>x\<in>set reads. \<not> isRemoval x) \<and>
           ((\<forall>x\<in>set new. \<not> isRemoval x) \<or>
            (\<not> keepOriginals config \<and>
             targetName file config \<noteq> originalName file @ extension file \<and>
             (\<exists>h content. handle file = Some h \<and>
                 fst (readContent env h config st) = Inr content \<and>
                 new = commitOps (targetName file config) content
                       @ [(RemoveEntry (originalName file @ extension file), \<not> isl r)])))"
proof -
  let ?old = "originalName file @ extension file"
  have trivial: ?thesis if "st' = st"
    using that by (intro exI [of _ "[]"]) simp
  show ?thesis
  proof (cases "handle file")
    case None
    with assms have "st' = st" by (simp add: executeRename_def)
    then show ?thesis by (rule trivial)
  next
    case h: (Some h)
    show ?thesis
    proof (cases dirHandle)
      case None
      with assms h have "st' = st" by (simp add: executeRename_def)
      then show ?thesis by (rule trivial)
    next
      case dh: (Some d)
      show ?thesis
      proof (cases "newName file @ extension file = ?old \<and> \<not> enableResize config")
        case True
        with assms h dh have "st' = st" by (simp add: executeRename_def Let_def)
        then show ?thesis by (rule trivial)
      next
        case False
        obtain rc st1 where rc: "readContent env h config st = (rc, st1)"
          by (cases "readContent env h config st")
        from readContent_trace [OF rc] obtain reads where
          reads: "trace st1 = trace st @ reads" "\<forall>x\<in>set reads. \<not> isRemoval x"
          by blast
        show ?thesis
        proof (cases rc)
          case (Inl e)
          with assms h dh False rc have "st' = st1"
            by (auto simp: executeRename_def Let_def)
          with reads show ?thesis
            by (intro exI [of _ reads] exI [of _ "[]"]) simp
        next
          case c: (Inr content)
          show ?thesis
          proof (cases "has_move h \<and> \<not> enableResize config \<and> \<not> keepOriginals config")
            case True
            with assms h dh False rc c
            have "move env h (newName file @ extension file) st1 = (r, st')"
              by (auto simp: executeRename_def Let_def)
            from move_trace [OF this] reads show ?thesis
              by (intro exI [of _ reads]
                    exI [of _ "[(Move (handle_name h) (newName file @ extension file), \<not> isl r)]"])
                 (simp add: isRemoval_def)
          next
            case nomove: False
            with assms h dh False rc c
            have "copyAndDelete env config (targetName file config) ?old content st1 = (r, st')"
              by (auto simp: executeRename_def Let_def)
            from copyAndDelete_trace [OF this] obtain new where
              new: "trace st' = trace st1 @ new"
                "(\<forall>x\<in>set new. \<not> isRemoval x) \<or>
                 (\<not> keepOriginals config \<and> targetName file config \<noteq> ?old \<and>
                  new = commitOps (targetName file config) content @ [(RemoveEntry ?old, \<not> isl r)])"
              by blast
            have "fst (readContent env h config st) = Inr content"
              using rc c by simp
            with new reads h show ?thesis
              by (intro exI [of _ reads] exI [of _ new]) auto
          qed
        qed
      qed
    qed
  qed
qed

lemma nth_removal_position:
  assumes "\<forall>x\<in>set reads. \<not> isRemoval x" and "k < length (reads @ new)"
    and "isRemoval ((reads @ new) ! k)"
  shows "length reads \<le> k \<and> isRemoval (new ! (k - length reads)) \<and> k - length reads < length new"
proof -
  have "\<not> k < length reads"
  proof
    assume "k < length reads"
    then have "(reads @ new) ! k \<in> set reads"
      by (simp add: nth_append)
    with assms(1,3) show False by blast
  qed
  with assms(2,3) show ?thesis
    by (auto simp: nth_append)
qed

text \<open>
  Claim C3. Among the calls that one \<open>executeRename\<close> issues, a \<open>removeEntry\<close> is
  the last one, it removes the original full name, and it is issued only when
  \<open>keepOriginals\<close> is false and the target name differs from the original name; the four
  calls just before it are \<open>getFileHandle\<close>, \<open>createWritable\<close>, \<open>write\<close> (of the
  content read or resized) and \<open>close\<close> on the target name, each of which returned.
  So no removal is issued before the write has committed, and none at all when the
  names are equal or \<open>keepOriginals\<close> is true.
\<close>

theorem removal_only_after_commit:
  assumes "executeRename env file dirHandle config st = (r, st')"
  shows "\<exists>new. trace st' = trace st @ new \<and>
           (\<forall>k n ok. k < length new \<and> new ! k = (RemoveEntry n, ok) \<longrightarrow>
              n = originalName file @ extension file \<and>
              \<not> keepOriginals config \<and>
              targetName file config \<noteq> originalName file @ extension file \<and>
              Suc k = length new \<and> 4 \<le> k \<and>
              (\<exists>h content. handle file = Some h \<and>
                 fst (readContent env h config st) = Inr content \<and>
                 new ! (k - 4) = (GetFileHandle (targetName file config), True) \<and>
                 new ! (k - 3) = (CreateWritable (targetName file config), True) \<and>
                 new ! (k - 2) = (Write (targetName file config) content, True) \<and>
                 new ! (k - 1) = (Close (targetName file config), True)))"
proof -
  let ?old = "originalName file @ extension file"
  let ?t = "targetName file config"
  from executeRename_trace [OF assms] obtain reads new where
    tr: "trace st' = trace st @ reads @ new" and
    reads: "\<forall>x\<in>set reads. \<not> isRemoval x" and
    new: "(\<forall>x\<in>set new. \<not> isRemoval x) \<or>
          (\<not> keepOriginals config \<and> ?t \<noteq> ?old \<and>
           (\<exists>h content. handle file = Some h \<and>
               fst (readContent env h config st) = Inr content \<and>
               new = commitOps ?t content @ [(RemoveEntry ?old, \<not> isl r)]))"
    by blast
  have main: "\<forall>k n ok. k < length (reads @ new) \<and> (reads @ new) ! k = (RemoveEntry n, ok) \<longrightarrow>
              n = ?old \<and> \<not> keepOriginals config \<and> ?t \<noteq> ?old \<and>
              Suc k = length (reads @ new) \<and> 4 \<le> k \<and>
              (\<exists>h content. handle file = Some h \<and>
                 fst (readContent env h config st) = Inr content \<and>
                 (reads @ new) ! (k - 4) = (GetFileHandle ?t, True) \<and>
                 (reads @ new) ! (k - 3) = (CreateWritable ?t, True) \<and>
                 (reads @ new) ! (k - 2) = (Write ?t content, True) \<and>
                 (reads @ new) ! (k - 1) = (Close ?t, True))"
  proof (intro allI impI)
    fix k n ok
    assume a: "k < length (reads @ new) \<and> (reads @ new) ! k = (RemoveEntry n, ok)"
    then have "isRemoval ((reads @ new) ! k)"
      by (simp add: isRemoval_def)
    with reads a have pos: "length reads \<le> k" "isRemoval (new ! (k - length reads))"
      "k - length reads < length new"
      using nth_removal_position [of reads k new] by auto
    then have "new ! (k - length reads) \<in> set new"
      by simp
    with pos(2) new obtain h content where
      k: "\<not> keepOriginals config" "?t \<noteq> ?old" and
      h: "handle file = Some h" "fst (readContent env h config st) = Inr content" and
      shape: "new = commitOps ?t content @ [(RemoveEntry ?old, \<not> isl r)]"
      by blast
    let ?j = "k - length reads"
    have j: "?j < 5"
      using pos(3) shape by (simp add: commitOps_def)
    have "?j = 4"
    proof (rule ccontr)
      assume "?j \<noteq> 4"
      with j have j4: "?j < 4" by simp
      have l4: "length (commitOps ?t content) = 4"
        by (simp add: commitOps_def)
      have "new ! ?j = commitOps ?t content ! ?j"
        unfolding shape using j4 by (simp add: nth_append l4)
      moreover have "commitOps ?t content ! ?j \<in> set (commitOps ?t content)"
        using j4 l4 by simp
      ultimately have "new ! ?j \<in> set (commitOps ?t content)"
        by simp
      then have "\<not> isRemoval (new ! ?j)"
        by (auto simp: commitOps_def isRemoval_def)
      with pos(2) show False by simp
    qed
    with pos(1) have keq: "k = length reads + 4"
      by simp
    have nk: "(reads @ new) ! k = (RemoveEntry ?old, \<not> isl r)"
      unfolding keq shape by (simp add: nth_append commitOps_def)
    with a have "n = ?old" by simp
    moreover have "Suc k = length (reads @ new)"
      unfolding keq shape by (simp add: commitOps_def)
    moreover have "4 \<le> k" using keq by simp
    moreover have "(reads @ new) ! (k - 4) = (GetFileHandle ?t, True)"
      "(reads @ new) ! (k - 3) = (CreateWritable ?t, True)"
      "(reads @ new) ! (k - 2) = (Write ?t content, True)"
      "(reads @ new) ! (k - 1) = (Close ?t, True)"
      unfolding keq shape by (simp_all add: nth_append commitOps_def)
    ultimately show "n = ?old \<and> \<not> keepOriginals config \<and> ?t \<noteq> ?old \<and>
       Suc k = length (reads @ new) \<and> 4 \<le> k \<and>
       (\<exists>h content. handle file = Some h \<and>
          fst (readContent env h config st) = Inr content \<and>
          (reads @ new) ! (k - 4) = (GetFileHandle ?t, True) \<and>
          (reads @ new) ! (k - 3) = (CreateWritable ?t, True) \<and>
          (reads @ new) ! (k - 2) = (Write ?t content, True) \<and>
          (reads @ new) ! (k - 1) = (Close ?t, True))"
      using k h by blast
  qed
  show ?thesis
    by (intro exI [of _ "reads @ new"] conjI) (rule tr, rule main)
qed

lemma example_planned_fields:
  "handle example_planned = Some \<lparr>handle_name = ''a.jpg'', has_move = False\<rparr>"
  "newName example_planned = ''img_001''" "extension example_planned = ''.jpg''"
  "originalName example_planned = ''a''" "status example_planned = PENDING"
  by (simp_all add: example_planned_def mkProcessed_def ImageFile.extend_def
        ProcessedFile.fields_def example_file_def)

lemma example_config_flags:
  "\<not> enableResize (example_config p)" "\<not> keepOriginals (example_config p)"
  "\<not> dryRun (example_config p)" "resizeWidth (example_config p) = 1920"
  by (simp_all add: example_config_def)

lemma example_executeRename:
  "executeRename example_env example_planned (Some (DirectoryHandle ''photos''))
     (example_config ''img_{num:003}'') example_storage = (Inr (), example_storage_after)"
  unfolding executeRename_def readContent_def copyAndDelete_def targetName_def primitive_defs
    perform_def record_op_def Let_def example_planned_fields example_config_flags
  by (simp add: example_env_def example_storage_def example_storage_after_def
        example_planned_fields example_config_flags)

lemma shouldResize_result:
  "rejects env (length (trace st)) (ShouldResize f tw) = None \<Longrightarrow> image_dims f = Some (w, h) \<Longrightarrow>
   fst (shouldResize env f tw st) = Inr (tw < int w)"
  by (simp add: shouldResize_def perform_def)

lemma readContent_not_wider:
  assumes "enableResize config" and "entries st (handle_name h) = Some source"
    and "image_dims source = Some (w, hgt)" and "int w \<le> resizeWidth config"
    and "readContent env h config st = (rc, st1)"
  shows "(rc = Inr source \<or> isl rc) \<and> entries st1 = entries st \<and>
         (\<exists>new. trace st1 = trace st @ new \<and> (\<forall>x\<in>set new. \<not> isWrite x \<and> \<not> isResize x))"
proof -
  obtain r1 st' where g: "getFile env h st = (r1, st')"
    by (cases "getFile env h st")
  then have t1: "trace st' = trace st @ [(GetFile (handle_name h), \<not> isl r1)]"
    unfolding getFile_def by (rule perform_trace)
  have e1: "entries st' = entries st"
    using g by (auto simp: getFile_def perform_def record_op_def split: option.splits)
  have v1: "r1 = Inr source \<or> isl r1"
    using g assms(2) by (auto simp: getFile_def perform_def record_op_def split: option.splits)
  show ?thesis
  proof (cases r1)
    case (Inl e)
    with assms(1,5) g have "rc = r1" "st1 = st'"
      by (simp_all add: readContent_def)
    with Inl t1 e1 show ?thesis
      by (simp add: isWrite_def isResize_def)
  next
    case (Inr x)
    with v1 have x: "r1 = Inr source" by simp
    obtain r2 st2 where s: "shouldResize env source (resizeWidth config) st' = (r2, st2)"
      by (cases "shouldResize env source (resizeWidth config) st'")
    then have t2: "trace st2 = trace st' @ [(ShouldResize source (resizeWidth config), \<not> isl r2)]"
      unfolding shouldResize_def by (rule perform_trace)
    have e2: "entries st2 = entries st'"
      using s by (auto simp: shouldResize_def perform_def record_op_def split: option.splits)
    have v2: "r2 = Inr False \<or> isl r2"
      using s assms(3,4)
      by (auto simp: shouldResize_def perform_def record_op_def split: option.splits)
    have "rc = (if isl r2 then Inl (projl r2) else Inr source) \<and> st1 = st2"
      using assms(1,5) g x s v2 by (cases r2) (auto simp: readContent_def)
    with t1 t2 e1 e2 show ?thesis
      by (auto simp: isWrite_def isResize_def)
  qed
qed

lemma copyAndDelete_writes:
  assumes "copyAndDelete env config t old content st = (r, st')"
  shows "(\<exists>new. trace st' = trace st @ new \<and>
            (\<forall>n d ok. (Write n d, ok) \<in> set new \<longrightarrow> d = content) \<and>
            (\<forall>x\<in>set new. \<not> isResize x)) \<and>
         (r = Inr () \<longrightarrow> entries st' t = Some content)"
  using assms
  unfolding copyAndDelete_def primitive_defs perform_def record_op_def
  by (auto simp: isResize_def split: option.splits if_splits)

text \<open>
  Claim C7. \<open>shouldResize\<close> answers true exactly when the decoded image is wider than
  the target width (false on equality, so nothing is ever upscaled). Hence, when
  \<open>enableResize\<close> is set and the source is no wider than \<open>resizeWidth\<close>, executing the
  entry never calls \<open>resizeImage\<close>, every \<open>write\<close> it issues carries the source file as
  read, and when it returns the target name holds the source file's content.
\<close>

theorem resize_only_when_wider:
  "(rejects env (length (trace st)) (ShouldResize source targetWidth) = None \<and>
    image_dims source = Some (w, hgt) \<longrightarrow>
      fst (shouldResize env source targetWidth st) = Inr (targetWidth < int w)) \<and>
   (enableResize config \<and> handle entry = Some h \<and> entries st (handle_name h) = Some source \<and>
    image_dims source = Some (w, hgt) \<and> int w \<le> resizeWidth config \<and>
    executeRename env entry dirHandle config st = (r, st') \<longrightarrow>
      (\<exists>new. trace st' = trace st @ new \<and>
         (\<forall>n d ok. (Write n d, ok) \<in> set new \<longrightarrow> d = source) \<and>
         (\<forall>x\<in>set new. \<not> isResize x)) \<and>
      (r = Inr () \<longrightarrow> entries st' (targetName entry config) = Some source))"
proof (intro conjI impI)
  assume "rejects env (length (trace st)) (ShouldResize source targetWidth) = None \<and>
          image_dims source = Some (w, hgt)"
  then show "fst (shouldResize env source targetWidth st) = Inr (targetWidth < int w)"
    by (simp add: shouldResize_result)
next
  assume a: "enableResize config \<and> handle entry = Some h \<and>
    entries st (handle_name h) = Some source \<and>
    image_dims source = Some (w, hgt) \<and> int w \<le> resizeWidth config \<and>
    executeRename env entry dirHandle config st = (r, st')"
  let ?goal = "(\<exists>new. trace st' = trace st @ new \<and>
         (\<forall>n d ok. (Write n d, ok) \<in> set new \<longrightarrow> d = source) \<and>
         (\<forall>x\<in>set new. \<not> isResize x)) \<and>
      (r = Inr () \<longrightarrow> entries st' (targetName entry config) = Some source)"
  have ?goal
  proof (cases dirHandle)
    case None
    with a have "st' = st" "isl r"
      by (auto simp: executeRename_def)
    then show ?thesis by auto
  next
    case (Some dh)
    obtain rc st1 where rc: "readContent env h config st = (rc, st1)"
      by (cases "readContent env h config st")
    with a have c: "rc = Inr source \<or> isl rc" and e1: "entries st1 = entries st"
      and "\<exists>new. trace st1 = trace st @ new \<and> (\<forall>x\<in>set new. \<not> isWrite x \<and> \<not> isResize x)"
      using readContent_not_wider [of config st h source w hgt env rc st1] by simp_all
    then obtain reads where reads: "trace st1 = trace st @ reads"
      "\<forall>x\<in>set reads. \<not> isWrite x \<and> \<not> isResize x"
      by blast
    have nw: "(Write n d, ok) \<notin> set reads" for n d ok
      using reads(2) by (auto simp: isWrite_def)
    show ?thesis
    proof (cases rc)
      case (Inl e)
      with a Some rc have "st' = st1" "isl r"
        by (auto simp: executeRename_def Let_def)
      with reads nw show ?thesis by auto
    next
      case (Inr x)
      with c have x: "rc = Inr source" by simp
      with a Some rc have
        "copyAndDelete env config (targetName entry config)
           (originalName entry @ extension entry) source st1 = (r, st')"
        by (auto simp: executeRename_def Let_def)
      from copyAndDelete_writes [OF this] obtain new where
        new: "trace st' = trace st1 @ new"
          "\<forall>n d ok. (Write n d, ok) \<in> set new \<longrightarrow> d = source"
          "\<forall>x\<in>set new. \<not> isResize x"
        and ok: "r = Inr () \<longrightarrow> entries st' (targetName entry config) = Some source"
        by blast
      have "trace st' = trace st @ (reads @ new)"
        using reads(1) new(1) by simp
      moreover have "\<forall>n d ok. (Write n d, ok) \<in> set (reads @ new) \<longrightarrow> d = source"
        using nw new(2) by auto
      moreover have "\<forall>x\<in>set (reads @ new). \<not> isResize x"
        using reads(2) new(3) by auto
      ultimately show ?thesis
        using ok by blast
    qed
  qed
  then show "\<exists>new. trace st' = trace st @ new \<and>
         (\<forall>n d ok. (Write n d, ok) \<in> set new \<longrightarrow> d = source) \<and>
         (\<forall>x\<in>set new. \<not> isResize x)"
    and "r = Inr () \<Longrightarrow> entries st' (targetName entry config) = Some source"
    by blast+
qed

theorem removal_only_after_commit_witness:
  "executeRename example_env example_planned (Some (DirectoryHandle ''photos''))
     (example_config ''img_{num:003}'') example_storage = (Inr (), example_storage_after) \<and>
   trace example_storage_after ! 5 = (RemoveEntry ''a.jpg'', True) \<and>
   \<not> keepOriginals (example_config ''img_{num:003}'') \<and>
   targetName example_planned (example_config ''img_{num:003}'') \<noteq> ''a.jpg'' \<and>
   trace example_storage_after ! 4 = (Close ''img_001.jpg'', True) \<and>
   trace example_storage_after ! 3 = (Write ''img_001.jpg'' example_data, True)"
proof -
  from removal_only_after_commit [OF example_executeRename] obtain new where
    new: "trace example_storage_after = trace example_storage @ new" and
    p: "\<forall>k n ok. k < length new \<and> new ! k = (RemoveEntry n, ok) \<longrightarrow>
          n = originalName example_planned @ extension example_planned \<and>
          \<not> keepOriginals (example_config ''img_{num:003}'') \<and>
          targetName example_planned (example_config ''img_{num:003}'')
            \<noteq> originalName example_planned @ extension example_planned \<and>
          Suc k = length new \<and> 4 \<le> k \<and>
          (\<exists>h content. handle example_planned = Some h \<and>
             fst (readContent example_env h (example_config ''img_{num:003}'') example_storage)
               = Inr content \<and>
             new ! (k - 4) = (GetFileHandle (targetName example_planned (example_config ''img_{num:003}'')), True) \<and>
             new ! (k - 3) = (CreateWritable (targetName example_planned (example_config ''img_{num:003}'')), True) \<and>
             new ! (k - 2) = (Write (targetName example_planned (example_config ''img_{num:003}'')) content, True) \<and>
             new ! (k - 1) = (Close (targetName example_planned (example_config ''img_{num:003}'')), True))"
    by blast
  have n: "new = trace example_storage_after"
    using new by (simp add: example_storage_def)
  have k5: "5 < length new \<and> new ! 5 = (RemoveEntry ''a.jpg'', True)"
    unfolding n by (simp add: example_storage_after_def)
  from p k5 have
    "\<not> keepOriginals (example_config ''img_{num:003}'') \<and>
     targetName example_planned (example_config ''img_{num:003}'')
       \<noteq> originalName example_planned @ extension example_planned"
    by blast
  then have "\<not> keepOriginals (example_config ''img_{num:003}'') \<and>
     targetName example_planned (example_config ''img_{num:003}'') \<noteq> ''a.jpg''"
    by (simp add: example_planned_fields)
  moreover have "trace example_storage_after ! 4 = (Close ''img_001.jpg'', True)"
    "trace example_storage_after ! 3 = (Write ''img_001.jpg'' example_data, True)"
    by (simp_all add: example_storage_after_def)
  ultimately show ?thesis
    using example_executeRename k5 n by simp
qed

lemma example_executeRename_resize:
  "executeRename example_env example_planned (Some (DirectoryHandle ''photos''))
     example_resize_config example_storage = (Inr (), example_storage_unresized)"
proof -
  have flags: "enableResize example_resize_config" "\<not> keepOriginals example_resize_config"
    "resizeWidth example_resize_config = 1920"
    by (simp_all add: example_resize_config_def example_config_def)
  have dims: "image_dims example_data = Some (1000, 500)"
    by (simp add: example_data_def)
  show ?thesis
    unfolding executeRename_def readContent_def copyAndDelete_def targetName_def primitive_defs
      perform_def record_op_def Let_def
    by (simp add: example_env_def example_storage_def example_storage_unresized_def
          example_planned_fields flags dims)
qed

theorem resize_only_when_wider_witness:
  "rejects example_env (length (trace example_storage)) (ShouldResize example_data 1920) = None \<and>
   image_dims example_data = Some (1000, 500) \<and>
   fst (shouldResize example_env example_data 1920 example_storage) = Inr False \<and>
   enableResize example_resize_config \<and>
   handle example_planned = Some \<lparr>handle_name = ''a.jpg'', has_move = False\<rparr> \<and>
   entries example_storage ''a.jpg'' = Some example_data \<and>
   int 1000 \<le> resizeWidth example_resize_config \<and>
   executeRename example_env example_planned (Some (DirectoryHandle ''photos''))
     example_resize_config example_storage = (Inr (), example_storage_unresized) \<and>
   entries example_storage_unresized (targetName example_planned example_resize_config)
     = Some example_data"
proof -
  have h1: "rejects example_env (length (trace example_storage)) (ShouldResize example_data 1920) = None"
    by (simp add: example_env_def)
  have h2: "image_dims example_data = Some (1000, 500)"
    by (simp add: example_data_def)
  have h3: "enableResize example_resize_config" "int 1000 \<le> resizeWidth example_resize_config"
    by (simp_all add: example_resize_config_def example_config_def)
  have h4: "handle example_planned = Some \<lparr>handle_name = ''a.jpg'', has_move = False\<rparr>"
    by (rule example_planned_fields)
  have h5: "entries example_storage (handle_name \<lparr>handle_name = ''a.jpg'', has_move = False\<rparr>)
              = Some example_data"
    by (simp add: example_storage_def)
  note t = resize_only_when_wider
    [where env = example_env and st = example_storage and source = example_data
       and targetWidth = 1920 and w = 1000 and hgt = 500 and config = example_resize_config
       and entry = example_planned and h = "\<lparr>handle_name = ''a.jpg'', has_move = False\<rparr>"
       and dirHandle = "Some (DirectoryHandle ''photos'')" and r = "Inr ()"
       and st' = example_storage_unresized]
  from t h1 h2 have a: "fst (shouldResize example_env example_data 1920 example_storage) = Inr False"
    by simp
  from t h2 h3 h4 h5 example_executeRename_resize
  have b: "entries example_storage_unresized (targetName example_planned example_resize_config)
             = Some example_data"
    by blast
  from h1 h2 a h3 h4 h5 example_executeRename_resize b show ?thesis
    by simp
qed

lemma example_handleRename:
  "handleRename example_env (example_config ''img_{num:003}'') (Some (DirectoryHandle ''photos''))
     example_queue example_storage =
   ([example_planned\<lparr>handle := None, status := ERROR, errorMessage := Some ''Write/Move failed''\<rparr>,
     example_planned\<lparr>status := ERROR, errorMessage := Some conflictMessage\<rparr>,
     example_planned\<lparr>status := SUCCESS\<rparr>], example_storage_after)"
proof -
  have e0: "executeRename example_env (example_planned\<lparr>handle := None\<rparr>) (Some (DirectoryHandle ''photos''))
     (example_config ''img_{num:003}'') example_storage =
     (Inl (JsError ''Error'' ''Missing file system permissions or handles.''), example_storage)"
    by (simp add: executeRename_def)
  have st: "status (example_planned\<lparr>handle := None\<rparr>) \<noteq> ERROR"
    "status example_planned \<noteq> ERROR"
    by (simp_all add: example_planned_fields)
  show ?thesis
    unfolding handleRename_def example_queue_def
    by (simp add: example_config_flags e0 st example_executeRename)
qed

lemma handleRename_loop_append:
  "handleRename_loop env c dh (xs @ ys) i pf st =
     (case handleRename_loop env c dh xs i pf st of
        (pf1, st1) \<Rightarrow> handleRename_loop env c dh ys (i + length xs) pf1 st1)"
proof (induction xs arbitrary: i pf st)
  case Nil
  show ?case by simp
next
  case (Cons x xs)
  show ?case
    by (cases "executeRename env x dh c st"; cases "fst (executeRename env x dh c st)")
       (simp_all add: Cons.IH)
qed

lemma handleRename_loop_length:
  "length (fst (handleRename_loop env c dh xs i pf st)) = length pf"
proof (induction xs arbitrary: i pf st)
  case Nil
  show ?case by simp
next
  case (Cons x xs)
  show ?case
    by (cases "executeRename env x dh c st"; cases "fst (executeRename env x dh c st)")
       (simp_all add: Cons.IH)
qed

lemma handleRename_loop_outside:
  "j < i \<Longrightarrow> fst (handleRename_loop env c dh xs i pf st) ! j = pf ! j"
proof (induction xs arbitrary: i pf st)
  case Nil
  show ?case by simp
next
  case (Cons x xs)
  then have "j < i + 1" and "i \<noteq> j" by simp_all
  then show ?case
    by (cases "executeRename env x dh c st"; cases "fst (executeRename env x dh c st)")
       (simp_all add: Cons.IH)
qed

lemma handleRename_loop_beyond:
  "i + length xs \<le> j \<Longrightarrow> fst (handleRename_loop env c dh xs i pf st) ! j = pf ! j"
proof (induction xs arbitrary: i pf st)
  case Nil
  show ?case by simp
next
  case (Cons x xs)
  then have le: "Suc i + length xs \<le> j" and ne: "i \<noteq> j" by simp_all
  have ih: "fst (handleRename_loop env c dh xs (Suc i) pf' st') ! j = pf' ! j" for pf' st'
    using le by (rule Cons.IH)
  show ?case
    using ne
    by (cases "executeRename env x dh c st"; cases "fst (executeRename env x dh c st)")
       (simp_all add: ih)
qed

lemma handleRename_loop_single:
  "handleRename_loop env c dh [file] i pf st =
     (if status file \<noteq> ERROR then
        (if isl (fst (executeRename env file dh c st))
         then pf[i := (pf ! i)\<lparr>status := ERROR, errorMessage := Some ''Write/Move failed''\<rparr>]
         else pf[i := (pf ! i)\<lparr>status := SUCCESS\<rparr>],
         snd (executeRename env file dh c st))
      else (pf, st))"
  by (cases "executeRename env file dh c st"; cases "fst (executeRename env file dh c st)")
     simp_all

lemma handleRename_loop_step:
  assumes "k < length queue"
  shows "handleRename_loop env c dh (take (Suc k) queue) 0 pf st =
         (case handleRename_loop env c dh (take k queue) 0 pf st of
            (pf1, st1) \<Rightarrow> handleRename_loop env c dh [queue ! k] k pf1 st1)"
proof -
  have "take (Suc k) queue = take k queue @ [queue ! k]"
    using assms by (rule take_Suc_conv_app_nth)
  moreover have "length (take k queue) = k"
    using assms by simp
  ultimately show ?thesis
    by (simp add: handleRename_loop_append)
qed

lemma handleRename_loop_rest:
  assumes "k < length queue"
  shows "handleRename_loop env c dh queue 0 pf st =
         (case handleRename_loop env c dh (take (Suc k) queue) 0 pf st of
            (pf1, st1) \<Rightarrow> handleRename_loop env c dh (drop (Suc k) queue) (Suc k) pf1 st1)"
proof -
  have "queue = take (Suc k) queue @ drop (Suc k) queue"
    by simp
  moreover have "length (take (Suc k) queue) = Suc k"
    using assms by simp
  ultimately show ?thesis
    by (metis handleRename_loop_append add_0)
qed

text \<open>
  Claim C4. In a batch (not a dry run, with a directory handle), \<open>storageAfter \<dots> k\<close> being
  the storage, with its record of calls, left by the first \<open>k\<close> entries: an entry that is
  already Error is skipped, it stays as it is and the storage after it is the
  storage before it, so no call at all is made for it; every other entry is executed on
  the storage the earlier entries left, whether or not they failed, and it alone is
  marked Error (with the failure message) when its execution throws, Success otherwise.
  The batch always runs to the last entry.
\<close>

theorem continue_on_error:
  assumes "\<not> dryRun config" and "dirHandle = Some dh"
    and "handleRename env config dirHandle queue st = (pf', st')"
    and "k < length queue"
  shows "length pf' = length queue \<and>
         st' = storageAfter env config dirHandle queue st (length queue) \<and>
         (status (queue ! k) = ERROR \<longrightarrow>
            pf' ! k = queue ! k \<and>
            storageAfter env config dirHandle queue st (Suc k) =
              storageAfter env config dirHandle queue st k) \<and>
         (status (queue ! k) \<noteq> ERROR \<longrightarrow>
            storageAfter env config dirHandle queue st (Suc k) =
              snd (executeRename env (queue ! k) dirHandle config
                     (storageAfter env config dirHandle queue st k)) \<and>
            pf' ! k =
              (if isl (fst (executeRename env (queue ! k) dirHandle config
                              (storageAfter env config dirHandle queue st k)))
               then (queue ! k)\<lparr>status := ERROR, errorMessage := Some ''Write/Move failed''\<rparr>
               else (queue ! k)\<lparr>status := SUCCESS\<rparr>))"
proof -
  let ?run = "\<lambda>j. handleRename_loop env config dirHandle (take j queue) 0 queue st"
  let ?S = "storageAfter env config dirHandle queue st"
  have all: "handleRename_loop env config dirHandle queue 0 queue st = (pf', st')"
    using assms(1,2,3) by (simp add: handleRename_def)
  have S: "snd (?run j) = ?S j" for j
    by (simp add: storageAfter_def)
  have len: "length (fst (?run j)) = length queue" for j
    by (rule handleRename_loop_length)
  have before: "fst (?run k) ! k = queue ! k"
    using handleRename_loop_beyond [of 0 "take k queue" k env config dirHandle queue st] assms(4)
    by simp
  have step: "?run (Suc k) =
              handleRename_loop env config dirHandle [queue ! k] k (fst (?run k)) (?S k)"
    using handleRename_loop_step [OF assms(4), of env config dirHandle queue st]
    by (simp add: split_def S)
  have after: "pf' ! k = fst (?run (Suc k)) ! k"
  proof -
    have "(pf', st') = handleRename_loop env config dirHandle (drop (Suc k) queue) (Suc k)
                         (fst (?run (Suc k))) (snd (?run (Suc k)))"
      using handleRename_loop_rest [OF assms(4), of env config dirHandle queue st] all
      by (simp add: split_def)
    then have "pf' = fst (handleRename_loop env config dirHandle (drop (Suc k) queue) (Suc k)
                         (fst (?run (Suc k))) (snd (?run (Suc k))))"
      by (metis fst_conv)
    then show ?thesis
      by (simp add: handleRename_loop_outside)
  qed
  have kl: "k < length (fst (?run k))"
    using assms(4) len by simp
  have l: "length pf' = length queue"
    using all handleRename_loop_length [of env config dirHandle queue 0 queue st] by simp
  have f: "st' = ?S (length queue)"
    using all by (simp add: storageAfter_def)
  have skip: "pf' ! k = queue ! k \<and> ?S (Suc k) = ?S k" if "status (queue ! k) = ERROR"
  proof -
    have "?run (Suc k) = (fst (?run k), ?S k)"
      unfolding step handleRename_loop_single using that by simp
    then have "fst (?run (Suc k)) = fst (?run k)" "snd (?run (Suc k)) = ?S k"
      by simp_all
    with after before S show ?thesis by simp
  qed
  have attempt: "?S (Suc k) = snd (executeRename env (queue ! k) dirHandle config (?S k)) \<and>
            pf' ! k =
              (if isl (fst (executeRename env (queue ! k) dirHandle config (?S k)))
               then (queue ! k)\<lparr>status := ERROR, errorMessage := Some ''Write/Move failed''\<rparr>
               else (queue ! k)\<lparr>status := SUCCESS\<rparr>)"
    if "status (queue ! k) \<noteq> ERROR"
  proof -
    let ?x = "executeRename env (queue ! k) dirHandle config (?S k)"
    let ?p = "fst (?run k)"
    have r: "?run (Suc k) =
        (if isl (fst ?x)
         then ?p[k := (?p ! k)\<lparr>status := ERROR, errorMessage := Some ''Write/Move failed''\<rparr>]
         else ?p[k := (?p ! k)\<lparr>status := SUCCESS\<rparr>], snd ?x)"
      unfolding step handleRename_loop_single using that by simp
    then have "snd (?run (Suc k)) = snd ?x"
      by simp
    then have s: "?S (Suc k) = snd ?x"
      by (simp add: S)
    from r have "fst (?run (Suc k)) ! k =
        (if isl (fst ?x)
         then (?p ! k)\<lparr>status := ERROR, errorMessage := Some ''Write/Move failed''\<rparr>
         else (?p ! k)\<lparr>status := SUCCESS\<rparr>)"
      using kl by (simp split: if_splits)
    with after before s show ?thesis by simp
  qed
  show ?thesis
    using l f skip attempt by blast
qed

theorem continue_on_error_witness:
  "\<not> dryRun (example_config ''img_{num:003}'') \<and>
   handleRename example_env (example_config ''img_{num:003}'') (Some (DirectoryHandle ''photos''))
     example_queue example_storage =
   ([example_planned\<lparr>handle := None, status := ERROR, errorMessage := Some ''Write/Move failed''\<rparr>,
     example_planned\<lparr>status := ERROR, errorMessage := Some conflictMessage\<rparr>,
     example_planned\<lparr>status := SUCCESS\<rparr>], example_storage_after) \<and>
   (1::nat) < length example_queue \<and>
   status (example_queue ! 1) = ERROR \<and>
   storageAfter example_env (example_config ''img_{num:003}'') (Some (DirectoryHandle ''photos''))
     example_queue example_storage (Suc 1) =
   storageAfter example_env (example_config ''img_{num:003}'') (Some (DirectoryHandle ''photos''))
     example_queue example_storage 1 \<and>
   example_storage_after =
   storageAfter example_env (example_config ''img_{num:003}'') (Some (DirectoryHandle ''photos''))
     example_queue example_storage (length example_queue)"
proof -
  have nd: "\<not> dryRun (example_config ''img_{num:003}'')"
    by (rule example_config_flags)
  have k: "(1::nat) < length example_queue"
    by (simp add: example_queue_def)
  have e: "status (example_queue ! 1) = ERROR"
    by (simp add: example_queue_def)
  from continue_on_error [OF nd refl example_handleRename k] e
  have "storageAfter example_env (example_config ''img_{num:003}'') (Some (DirectoryHandle ''photos''))
     example_queue example_storage (Suc 1) =
   storageAfter example_env (example_config ''img_{num:003}'') (Some (DirectoryHandle ''photos''))
     example_queue example_storage 1 \<and>
   example_storage_after =
   storageAfter example_env (example_config ''img_{num:003}'') (Some (DirectoryHandle ''photos''))
     example_queue example_storage (length example_queue)"
    by blast
  with nd example_handleRename k e show ?thesis
    by blast
qed

section \<open>Properties of the Scanner\<close>

text \<open>
  Claim C9. \<open>scanDirectory\<close> throws when \<open>window\<close> has no \<open>showDirectoryPicker\<close>, and
  rethrows the error of a picker that rejects with anything but an \<open>AbortError\<close> (access
  denied); when the picker rejects with an \<open>AbortError\<close> (the user dismissed the dialog)
  it returns an empty file list and no directory handle instead of an error.
\<close>

theorem scan_failure_and_abort:
  "(\<not> has_showDirectoryPicker p \<longrightarrow> scanDirectory p = Inl (JsError ''Error'' unsupportedMessage)) \<and>
   (has_showDirectoryPicker p \<and> showDirectoryPicker p = Inl e \<and> err_name e \<noteq> ''AbortError'' \<longrightarrow>
      scanDirectory p = Inl e) \<and>
   (has_showDirectoryPicker p \<and> showDirectoryPicker p = Inl e \<and> err_name e = ''AbortError'' \<longrightarrow>
      scanDirectory p = Inr ([], None))"
  by (simp add: scanDirectory_def scanSelected_def)

theorem scan_failure_and_abort_witness:
  "\<not> has_showDirectoryPicker (example_platform\<lparr>has_showDirectoryPicker := False\<rparr>) \<and>
   scanDirectory (example_platform\<lparr>has_showDirectoryPicker := False\<rparr>)
     = Inl (JsError ''Error'' unsupportedMessage) \<and>
   has_showDirectoryPicker example_platform \<and>
   err_name (JsError ''NotAllowedError'' ''denied'') \<noteq> ''AbortError'' \<and>
   scanDirectory (example_platform\<lparr>showDirectoryPicker := Inl (JsError ''NotAllowedError'' ''denied'')\<rparr>)
     = Inl (JsError ''NotAllowedError'' ''denied'') \<and>
   err_name (JsError ''AbortError'' ''The user aborted a request.'') = ''AbortError'' \<and>
   scanDirectory (example_platform\<lparr>showDirectoryPicker := Inl (JsError ''AbortError'' ''The user aborted a request.'')\<rparr>)
     = Inr ([], None)"
proof -
  have h: "has_showDirectoryPicker example_platform"
    by (simp add: example_platform_def)
  note t1 = scan_failure_and_abort [of "example_platform\<lparr>has_showDirectoryPicker := False\<rparr>"]
  note t2 = scan_failure_and_abort
    [of "example_platform\<lparr>showDirectoryPicker := Inl (JsError ''NotAllowedError'' ''denied'')\<rparr>"
        "JsError ''NotAllowedError'' ''denied''"]
  note t3 = scan_failure_and_abort
    [of "example_platform\<lparr>showDirectoryPicker := Inl (JsError ''AbortError'' ''The user aborted a request.'')\<rparr>"
        "JsError ''AbortError'' ''The user aborted a request.''"]
  from t1 have a: "scanDirectory (example_platform\<lparr>has_showDirectoryPicker := False\<rparr>)
     = Inl (JsError ''Error'' unsupportedMessage)"
    by simp
  from t2 h have b: "scanDirectory (example_platform\<lparr>showDirectoryPicker := Inl (JsError ''NotAllowedError'' ''denied'')\<rparr>)
     = Inl (JsError ''NotAllowedError'' ''denied'')"
    by simp
  from t3 h have c: "scanDirectory (example_platform\<lparr>showDirectoryPicker := Inl (JsError ''AbortError'' ''The user aborted a request.'')\<rparr>)
     = Inr ([], None)"
    by simp
  from a b c h show ?thesis by simp
qed

text \<open>A scan of the example directory: directories, names without a dot and extensions
  off the list are left out, the extension is lower-cased, the result is sorted.\<close>

lemma example_scan:
  "map (\<lambda>f. (originalName f, extension f, path f, file_id f)) (fst (projr (scanDirectory example_platform)))
     = [(''a.x'', ''.png'', ''a.x.png'', ''id1''), (''b'', ''.jpg'', ''b.JPG'', ''id0'')]"
  unfolding scanDirectory_def scanSelected_def example_platform_def
  by (simp add: lastIndexOf_dot_def Let_def allowedExtensions_def sortByName_def
        toLowerCase_def lower_char_def char_of_def bit_Suc_0_iff)

end
